theory Spec2Isabelle
  imports Complex_Main
begin

section \<open>Python values and exceptions\<close>

text \<open>
  The plan engine of \<^verbatim>\<open>app.py\<close> is modelled function by function. Every exception the
  Python code can raise is a value \<open>Inl e\<close> of a sum type; a normal return is \<open>Inr v\<close>.
\<close>

datatype pyexn =
  AttributeError | TypeError | ValueError | OverflowError | IndexError
  | ZeroDivisionError | ServiceError

text \<open>Sequencing: the second step runs on the value of the first unless that one raised.\<close>

definition and_then :: "pyexn + 'a \<Rightarrow> ('a \<Rightarrow> pyexn + 'b) \<Rightarrow> pyexn + 'b" where
  "and_then m f = (case m of Inl e \<Rightarrow> Inl e | Inr x \<Rightarrow> f x)"

text \<open>
  A Python \<^verbatim>\<open>float\<close> is an IEEE binary64 number. A finite one is represented by the
  rational number it denotes (the two zeros are identified: the code only ever passes
  floats to \<^verbatim>\<open>int()\<close>, which maps both to 0).
\<close>

datatype pyfloat = Finite rat | PosInf | NegInf | NaN

text \<open>
  What \<^verbatim>\<open>json.loads\<close> can return: the fields of a session coming from the text service
  are such values, and \<^verbatim>\<open>focus\<close> and \<^verbatim>\<open>notes\<close> are stored in the record unchecked.
  A \<^verbatim>\<open>dict\<close> is an association list read with \<open>map_of\<close>.
\<close>

datatype pyval =
  PNone | PBool bool | PInt int | PFloat pyfloat | PStr string
  | PList "pyval list" | PDict "(string \<times> pyval) list"

subsection \<open>Binary64 rounding\<close>

text \<open>\<^verbatim>\<open>int.bit_length\<close>: the number of binary digits of a natural number.\<close>

fun bit_length :: "nat \<Rightarrow> nat" where
  "bit_length n = (if n = 0 then 0 else Suc (bit_length (n div 2)))"

declare bit_length.simps [simp del]

text \<open>For \<open>x > 0\<close>, \<open>ilog2 x\<close> is the integer \<open>e\<close> with \<open>2 powi e \<le> x < 2 powi (e + 1)\<close>.\<close>

definition ilog2 :: "rat \<Rightarrow> int" where
  "ilog2 x = (if 1 \<le> x then int (bit_length (nat \<lfloor>x\<rfloor>)) - 1
              else - int (bit_length (nat (\<lceil>1 / x\<rceil> - 1))))"

definition round_half_even :: "rat \<Rightarrow> int" where
  "round_half_even m =
     (let n = \<lfloor>m\<rfloor>; r = m - of_int n
      in if r < 1 / 2 then n
         else if 1 / 2 < r then n + 1
         else if even n then n else n + 1)"

text \<open>
  The spacing of the doubles around \<open>x\<close>: 53 significant bits, and \<open>2 powi (- 1074)\<close>
  in the subnormal range.
\<close>

definition quantum :: "rat \<Rightarrow> rat" where
  "quantum x = 2 powi (max (ilog2 \<bar>x\<bar> - 52) (- 1074))"

text \<open>Round to nearest, ties to even, before the overflow check.\<close>

definition round_nearest :: "rat \<Rightarrow> rat" where
  "round_nearest x =
     (if x = 0 then 0
      else sgn x * (of_int (round_half_even (\<bar>x\<bar> / quantum x)) * quantum x))"

text \<open>
  The largest exponent of a finite double is 1023: a rounded value of \<open>2 ^ 1024\<close> or more
  in magnitude is an overflow.
\<close>

definition round_to_double :: "rat \<Rightarrow> pyfloat" where
  "round_to_double x =
     (let y = round_nearest x
      in if 1024 \<le> ilog2 \<bar>y\<bar> then (if 0 < y then PosInf else NegInf)
         else Finite y)"

text \<open>
  \<^verbatim>\<open>float(n)\<close> for an \<^verbatim>\<open>int\<close>, as done implicitly by \<^verbatim>\<open>n * 1.10\<close>: correctly rounded,
  OverflowError when the result is out of range.
\<close>

definition float_of_int :: "int \<Rightarrow> pyexn + pyfloat" where
  "float_of_int n =
     (case round_to_double (of_int n) of
        Finite q \<Rightarrow> Inr (Finite q)
      | _ \<Rightarrow> Inl OverflowError)"

definition inf_times :: "rat \<Rightarrow> pyfloat" where
  "inf_times a = (if a = 0 then NaN else if 0 < a then PosInf else NegInf)"

fun float_mul :: "pyfloat \<Rightarrow> pyfloat \<Rightarrow> pyfloat" where
  "float_mul (Finite a) (Finite b) = round_to_double (a * b)"
| "float_mul NaN y = NaN"
| "float_mul x NaN = NaN"
| "float_mul (Finite a) PosInf = inf_times a"
| "float_mul (Finite a) NegInf = inf_times (- a)"
| "float_mul PosInf (Finite b) = inf_times b"
| "float_mul NegInf (Finite b) = inf_times (- b)"
| "float_mul PosInf PosInf = PosInf"
| "float_mul NegInf NegInf = PosInf"
| "float_mul PosInf NegInf = NegInf"
| "float_mul NegInf PosInf = NegInf"

text \<open>\<^verbatim>\<open>a / b\<close> on two \<^verbatim>\<open>int\<close>s: the correctly rounded quotient.\<close>

definition true_div :: "int \<Rightarrow> int \<Rightarrow> pyexn + pyfloat" where
  "true_div a b =
     (if b = 0 then Inl ZeroDivisionError
      else case round_to_double (of_int a / of_int b) of
             Finite q \<Rightarrow> Inr (Finite q)
           | _ \<Rightarrow> Inl OverflowError)"

text \<open>\<^verbatim>\<open>int(x)\<close> on a float: truncation towards zero.\<close>

definition int_of_float :: "pyfloat \<Rightarrow> pyexn + int" where
  "int_of_float x =
     (case x of
        Finite q \<Rightarrow> Inr (if 0 \<le> q then \<lfloor>q\<rfloor> else \<lceil>q\<rceil>)
      | NaN \<Rightarrow> Inl ValueError
      | _ \<Rightarrow> Inl OverflowError)"

text \<open>\<^verbatim>\<open>n * c\<close> for an \<^verbatim>\<open>int\<close> \<open>n\<close> and a \<^verbatim>\<open>float\<close> \<open>c\<close>, then \<^verbatim>\<open>int(...)\<close>.\<close>

definition int_times_float :: "int \<Rightarrow> pyfloat \<Rightarrow> pyexn + int" where
  "int_times_float n c =
     and_then (float_of_int n) (\<lambda>x. int_of_float (float_mul x c))"

text \<open>The float literals of the source are the doubles nearest to the decimals.\<close>

definition lit_1_10 :: pyfloat where
  "lit_1_10 = round_to_double (110 / 100)"

definition lit_0_8 :: pyfloat where
  "lit_0_8 = round_to_double (8 / 10)"

subsection \<open>Strings\<close>

text \<open>
  A \<^verbatim>\<open>str\<close> is a \<open>string\<close> holding the UTF-8 bytes of the text. \<^verbatim>\<open>lower\<close> and
  \<^verbatim>\<open>title\<close> act on the ASCII letters; the code only compares their results with
  ASCII literals that no character outside ASCII is mapped into, so the comparisons
  come out as in Python.
\<close>

definition is_upper :: "char \<Rightarrow> bool" where
  "is_upper c = (65 \<le> (of_char c :: nat) \<and> (of_char c :: nat) \<le> 90)"

definition is_lower :: "char \<Rightarrow> bool" where
  "is_lower c = (97 \<le> (of_char c :: nat) \<and> (of_char c :: nat) \<le> 122)"

definition to_lower :: "char \<Rightarrow> char" where
  "to_lower c = (if is_upper c then char_of ((of_char c :: nat) + 32) else c)"

definition to_upper :: "char \<Rightarrow> char" where
  "to_upper c = (if is_lower c then char_of ((of_char c :: nat) - 32) else c)"

definition str_lower :: "string \<Rightarrow> string" where
  "str_lower s = map to_lower s"

text \<open>
  \<^verbatim>\<open>str.title\<close>: a letter that follows a letter is lowercased, any other letter is
  uppercased. The flag says whether the previous character was a letter.
\<close>

fun title_from :: "bool \<Rightarrow> string \<Rightarrow> string" where
  "title_from prev [] = []"
| "title_from prev (c # cs) =
     (if is_upper c \<or> is_lower c
      then (if prev then to_lower c else to_upper c) # title_from True cs
      else c # title_from False cs)"

definition str_title :: "string \<Rightarrow> string" where
  "str_title s = title_from False s"

text \<open>\<^verbatim>\<open>s or d\<close> on strings: the empty string is falsy.\<close>

definition str_or :: "string \<Rightarrow> string \<Rightarrow> string" where
  "str_or s d = (if s = [] then d else s)"

text \<open>\<^verbatim>\<open>str(n)\<close> for an \<^verbatim>\<open>int\<close>, as interpolated by an f-string.\<close>

fun digits_of :: "nat \<Rightarrow> string" where
  "digits_of n =
     (if n < 10 then [char_of (48 + n)]
      else digits_of (n div 10) @ [char_of (48 + n mod 10)])"

declare digits_of.simps [simp del]

definition str_of_int :: "int \<Rightarrow> string" where
  "str_of_int i = (if i < 0 then CHR ''-'' # digits_of (nat (- i)) else digits_of (nat i))"

definition en_dash :: string where
  "en_dash = [CHR 0xE2, CHR 0x80, CHR 0x93]"

definition times_sign :: string where
  "times_sign = [CHR 0xC3, CHR 0x97]"

definition right_arrow :: string where
  "right_arrow = [CHR 0xE2, CHR 0x86, CHR 0x92]"

definition le_sign :: string where
  "le_sign = [CHR 0xE2, CHR 0x89, CHR 0xA4]"

text \<open>
  The characters of a text: in UTF-8 a character is a lead byte followed by its
  continuation bytes (\<open>0x80\<close> to \<open>0xBF\<close>).
\<close>

definition is_continuation :: "char \<Rightarrow> bool" where
  "is_continuation c = (128 \<le> (of_char c :: nat) \<and> (of_char c :: nat) < 192)"

function utf8_chars :: "string \<Rightarrow> string list" where
  "utf8_chars [] = []"
| "utf8_chars (c # cs) =
     (c # takeWhile is_continuation cs) # utf8_chars (dropWhile is_continuation cs)"
  by pat_completeness auto
termination
  by (relation "measure length") (auto simp: length_dropWhile_le less_Suc_eq_le)

text \<open>
  \<^verbatim>\<open>x += text\<close> where \<open>x\<close> is the \<^verbatim>\<open>notes\<close> of a session: concatenation on a \<^verbatim>\<open>str\<close>;
  a \<^verbatim>\<open>list\<close> is extended by the characters of the text, one element each; TypeError
  otherwise.
\<close>

definition iadd_str :: "pyval \<Rightarrow> string \<Rightarrow> pyexn + pyval" where
  "iadd_str x t =
     (case x of
        PStr s \<Rightarrow> Inr (PStr (s @ t))
      | PList xs \<Rightarrow> Inr (PList (xs @ map PStr (utf8_chars t)))
      | _ \<Rightarrow> Inl TypeError)"

section \<open>Session records and the store\<close>

record SessionPlan =
  day :: string
  focus :: pyval
  intensity :: string
  duration_min :: int
  load_units :: int
  "notes" :: pyval

text \<open>
  Session records are mutable objects and a Python list holds references to them: the
  same record can occur several times in a list. The store is the list of the records
  allocated so far, a reference is an index into it, and a plan is the store together
  with the list of references that the Python list holds.
\<close>

type_synonym heap = "SessionPlan list"

type_synonym plan = "heap \<times> nat list"

text \<open>What a reader of the Python list sees, position by position.\<close>

definition sessions_of :: "plan \<Rightarrow> SessionPlan list" where
  "sessions_of p = map (\<lambda>r. fst p ! r) (snd p)"

definition refs_ok :: "plan \<Rightarrow> bool" where
  "refs_ok p = list_all (\<lambda>r. r < length (fst p)) (snd p)"

definition DAYS_ORDER :: "string list" where
  "DAYS_ORDER = [''Mon'', ''Tue'', ''Wed'', ''Thu'', ''Fri'', ''Sat'', ''Sun'']"

fun index_of :: "'a \<Rightarrow> 'a list \<Rightarrow> nat option" where
  "index_of x [] = None"
| "index_of x (y # ys) = (if x = y then Some 0 else map_option Suc (index_of x ys))"

text \<open>\<^verbatim>\<open>day_index.get(s.day, 99)\<close>, the sort key of both sorting paths.\<close>

definition day_key :: "string \<Rightarrow> nat" where
  "day_key d = (case index_of d DAYS_ORDER of Some i \<Rightarrow> i | None \<Rightarrow> 99)"

text \<open>\<^verbatim>\<open>sessions.sort(key=...)\<close>: Python's sort is stable, as is \<open>sort_key\<close>.\<close>

definition sort_by_day :: "heap \<Rightarrow> nat list \<Rightarrow> nat list" where
  "sort_by_day h rs = sort_key (\<lambda>r. day_key (day (h ! r))) rs"

section \<open>The boxing template catalog and its selector\<close>

definition novice_templates :: "string \<Rightarrow> SessionPlan list" where
  "novice_templates contraindications = [
    \<lparr> day = ''Tue'',
      focus = PStr (''Boxing basics: stance, guard & straight punches''),
      intensity = ''Easy'' @ en_dash @ ''Moderate'',
      duration_min = 25,
      load_units = 30,
      notes = PStr (''Warm-up: 5 min skipping or brisk walk.\<newline>''
          @ ''Technique: 4 '' @ times_sign @ '' 2 min shadow boxing (jab'' @ en_dash @ ''cross, basic guard) with 1 min rest.\<newline>''
          @ ''Bag/pillow: 4 '' @ times_sign @ '' 1 min straight punches, light power.\<newline>''
          @ ''Cool-down: 5 min shoulder, wrist and calf stretches.\<newline>''
          @ ''Contraindications to watch: '' @ str_or contraindications ''None stated'' @ ''.'') \<rparr>,
    \<lparr> day = ''Thu'',
      focus = PStr (''Footwork & defence foundations''),
      intensity = ''Moderate'',
      duration_min = 25,
      load_units = 35,
      notes = PStr (''Warm-up: 5 min dynamic mobility (hips, ankles, shoulders).\<newline>''
          @ ''Main: 4 '' @ times_sign @ '' 2 min shadow boxing with basic steps (forward/back/side) and guard up.\<newline>''
          @ ''Defence drill: 3 '' @ times_sign @ '' 2 min slip/duck movements in front of mirror or wall.\<newline>''
          @ ''Core: 3 '' @ times_sign @ '' 20 s plank, 20 s rest.\<newline>''
          @ ''Cool-down: 5 min relaxed walk + breathing.\<newline>''
          @ ''Avoid any movements that aggravate: '' @ str_or contraindications ''None'' @ ''.'') \<rparr>,
    \<lparr> day = ''Sat'',
      focus = PStr (''Conditioning: simple intervals + technique''),
      intensity = ''Moderate'',
      duration_min = 30,
      load_units = 40,
      notes = PStr (''Warm-up: 5 min skipping or light jog.\<newline>''
          @ ''Intervals: 6 '' @ times_sign @ '' 30 s fast straight punches (shadow or bag) + 60 s easy movement.\<newline>''
          @ ''Technique: 4 '' @ times_sign @ '' 2 min shadow boxing, mixing punches with basic defence.\<newline>''
          @ ''Cool-down: 5'' @ en_dash @ ''8 min stretch (hips, hamstrings, shoulders).\<newline>''
          @ ''Stop if pain or dizziness occurs, especially given: '' @ str_or contraindications ''no stated issues'' @ ''.'') \<rparr> ]"

definition intermediate_templates :: "string \<Rightarrow> SessionPlan list" where
  "intermediate_templates contraindications = [
    \<lparr> day = ''Mon'',
      focus = PStr (''Technical combinations & footwork''),
      intensity = ''Moderate'' @ en_dash @ ''Hard'',
      duration_min = 35,
      load_units = 55,
      notes = PStr (''Warm-up: 5 min skipping + joint mobility.\<newline>''
          @ ''Combos on bag/shadow: 5 '' @ times_sign @ '' 3 min (jab'' @ en_dash @ ''cross'' @ en_dash @ ''hook, jab'' @ en_dash @ ''cross'' @ en_dash @ ''cross'' @ en_dash @ ''hook), 60'' @ en_dash @ ''90 s rest.\<newline>''
          @ ''Footwork rounds: 3 '' @ times_sign @ '' 2 min circling and cutting the ring.\<newline>''
          @ ''Cool-down: 5 min light walk + stretching.\<newline>''
          @ ''Modify combinations if they aggravate: '' @ str_or contraindications ''None'' @ ''.'') \<rparr>,
    \<lparr> day = ''Wed'',
      focus = PStr (''Defence, counters & core''),
      intensity = ''Moderate'',
      duration_min = 35,
      load_units = 50,
      notes = PStr (''Warm-up: 5 min dynamic warm-up.\<newline>''
          @ ''Defence rounds: 4 '' @ times_sign @ '' 3 min slips, ducks, parries, then counter 1'' @ en_dash @ ''2 punches.\<newline>''
          @ ''Shadow or bag work: 3 '' @ times_sign @ '' 2 min focusing on clean form at moderate pace.\<newline>''
          @ ''Core circuit: 3 rounds (20 s plank, 10 sit-ups, 10 Russian twists), 60 s rest.\<newline>''
          @ ''Respect pain or previous issues: '' @ str_or contraindications ''None'' @ ''.'') \<rparr>,
    \<lparr> day = ''Fri'',
      focus = PStr (''Conditioning: intervals & power focus''),
      intensity = ''Hard'',
      duration_min = 35,
      load_units = 60,
      notes = PStr (''Warm-up: 5'' @ en_dash @ ''7 min.\<newline>''
          @ ''Intervals: 8 '' @ times_sign @ '' 30 s high-output bag punching (all punches) + 60 s light movement.\<newline>''
          @ ''Power focus: 3 '' @ times_sign @ '' 2 min heavier single shots and 2'' @ en_dash @ ''3 punch combinations.\<newline>''
          @ ''Cool-down: 5'' @ en_dash @ ''8 min stretching & breathing.\<newline>''
          @ ''Keep technique tidy; reduce power if form breaks under fatigue.'') \<rparr> ]"

definition advanced_templates :: "string \<Rightarrow> SessionPlan list" where
  "advanced_templates contraindications = [
    \<lparr> day = ''Tue'',
      focus = PStr (''High-complexity combinations & movement''),
      intensity = ''Hard'',
      duration_min = 40,
      load_units = 70,
      notes = PStr (''Warm-up: 8 min mixed skipping + mobility.\<newline>''
          @ ''Complex combos: 5 '' @ times_sign @ '' 3 min on bag/pads, mixing level changes and angles.\<newline>''
          @ ''Footwork intensity: 3 '' @ times_sign @ '' 2 min high-tempo ring movement.\<newline>''
          @ ''Cool-down: 5'' @ en_dash @ ''8 min mobility & stretch.\<newline>''
          @ ''Monitor joints and previous issues: '' @ str_or contraindications ''None declared'' @ ''.'') \<rparr>,
    \<lparr> day = ''Thu'',
      focus = PStr (''Defence, counters & conditioning mixed''),
      intensity = ''Hard'',
      duration_min = 40,
      load_units = 70,
      notes = PStr (''Warm-up: 6'' @ en_dash @ ''8 min.\<newline>''
          @ ''Defence & counter rounds: 4 '' @ times_sign @ '' 3 min with slips, blocks and quick counters.\<newline>''
          @ ''Conditioning: 6 '' @ times_sign @ '' 30 s punch sprints + 60 s active rest.\<newline>''
          @ ''Core & stability: 3 '' @ times_sign @ '' 30 s plank variations.\<newline>''
          @ ''Cool-down as normal; adjust if any warning signs.'') \<rparr>,
    \<lparr> day = ''Sat'',
      focus = PStr (''Mixed technical conditioning (no full sparring)''),
      intensity = ''Moderate'' @ en_dash @ ''Hard'',
      duration_min = 40,
      load_units = 65,
      notes = PStr (''Warm-up: 6'' @ en_dash @ ''8 min.\<newline>''
          @ ''Shadow rounds: 3 '' @ times_sign @ '' 3 min visualising an opponent.\<newline>''
          @ ''Bag rounds: 4 '' @ times_sign @ '' 3 min mixing power and volume.\<newline>''
          @ ''Cool-down: 5'' @ en_dash @ ''8 min.\<newline>''
          @ ''If usually sparring, this tool deliberately avoids contact to reduce risk.'') \<rparr> ]"

definition boxing_templates :: "string \<Rightarrow> string \<Rightarrow> SessionPlan list" where
  "boxing_templates level contraindications =
     (if level = ''novice'' then novice_templates contraindications
      else if level = ''intermediate'' then intermediate_templates contraindications
      else advanced_templates contraindications)"

text \<open>\<^verbatim>\<open>xs[:n]\<close>: a negative bound counts from the end.\<close>

definition slice_to :: "'a list \<Rightarrow> int \<Rightarrow> 'a list" where
  "slice_to xs n =
     (if 0 \<le> n then take (nat n) xs else take (nat (int (length xs) + n)) xs)"

text \<open>
  The padding loop \<^verbatim>\<open>while len(sessions) < sessions_per_week: sessions.append(templates[0])\<close>.
  What is appended is the reference \<open>0\<close> to the first catalog record, not a copy of it.
\<close>

function pad_with_first :: "nat list \<Rightarrow> int \<Rightarrow> nat list" where
  "pad_with_first sessions n =
     (if int (length sessions) < n then pad_with_first (sessions @ [0]) n else sessions)"
  by pat_completeness auto
termination
  by (relation "measure (\<lambda>(sessions, n). nat (n - int (length sessions)))") auto

declare pad_with_first.simps [simp del]

definition generate_boxing_sessions_template :: "string \<Rightarrow> int \<Rightarrow> string \<Rightarrow> plan" where
  "generate_boxing_sessions_template level sessions_per_week contraindications =
     (let templates = boxing_templates (str_lower level) contraindications;
          refs = [0..<length templates];
          sessions =
            (if sessions_per_week \<le> int (length templates)
             then slice_to refs sessions_per_week
             else pad_with_first refs sessions_per_week)
      in (templates, sort_by_day templates sessions))"

section \<open>The generic generator\<close>

definition generic_session :: "string \<Rightarrow> string \<Rightarrow> nat \<Rightarrow> SessionPlan" where
  "generic_session sport contraindications i =
     \<lparr> day = DAYS_ORDER ! ((i * 2) mod length DAYS_ORDER),
       focus = PStr (sport @ '' conditioning session '' @ str_of_int (int i + 1)),
       intensity = ''Moderate'',
       duration_min = 30,
       load_units = 40,
       notes = PStr (''Warm-up: 5'' @ en_dash @ ''10 min easy movement.\<newline>''
          @ ''Main: intervals or tempo work relevant to the sport.\<newline>''
          @ ''Cool-down: 5'' @ en_dash @ ''10 min mobility & stretching.\<newline>''
          @ ''Contraindications to respect: '' @ str_or contraindications ''None stated'' @ ''.'') \<rparr>"

definition generate_generic_sessions_template ::
  "string \<Rightarrow> string \<Rightarrow> int \<Rightarrow> string \<Rightarrow> plan" where
  "generate_generic_sessions_template sport level sessions_per_week contraindications =
     (let objs = map (generic_session sport contraindications) [0..<nat sessions_per_week]
      in (objs, [0..<length objs]))"

section \<open>The AI plan requester\<close>

text \<open>
  What lies outside the program: whether a client for the text service was configured
  at start-up (\<^verbatim>\<open>OPENAI_AVAILABLE\<close>); the outcome of the request, of stripping the
  code fence and of \<^verbatim>\<open>json.loads\<close>, which is either an exception or the decoded
  value; and the builtin conversion of text to an integer used by \<^verbatim>\<open>int()\<close>
  (\<open>None\<close> stands for its ValueError). The prompt is only sent to the service and is
  not modelled.
\<close>

record external =
  openai_available :: bool
  decoded_reply :: "pyexn + pyval"
  int_of_text :: "string \<Rightarrow> int option"

text \<open>The target minutes are computed before the request, and the computation can raise.\<close>

definition total_minutes_target :: "string \<Rightarrow> int \<Rightarrow> int \<Rightarrow> pyexn + int" where
  "total_minutes_target level sessions_per_week last_week_load =
     (let level_lower = str_lower level
      in if last_week_load \<le> 0
         then Inr (if level_lower = ''novice'' then sessions_per_week * 25
                   else if level_lower = ''intermediate'' then sessions_per_week * 35
                   else sessions_per_week * 40)
         else and_then (int_times_float last_week_load lit_0_8)
                (\<lambda>k. Inr (max 60 (min 300 k))))"

text \<open>\<^verbatim>\<open>x.get(key, default)\<close>: only a \<^verbatim>\<open>dict\<close> has the method.\<close>

definition dict_get :: "pyval \<Rightarrow> string \<Rightarrow> pyval \<Rightarrow> pyexn + pyval" where
  "dict_get x key dflt =
     (case x of
        PDict kvs \<Rightarrow> Inr (case map_of kvs key of Some v \<Rightarrow> v | None \<Rightarrow> dflt)
      | _ \<Rightarrow> Inl AttributeError)"

text \<open>
  \<^verbatim>\<open>for item in x\<close>: the elements of a list, the characters of a string, the keys of a
  dictionary; TypeError on a value that is not iterable.
\<close>

definition py_iter :: "pyval \<Rightarrow> pyexn + pyval list" where
  "py_iter x =
     (case x of
        PList xs \<Rightarrow> Inr xs
      | PStr s \<Rightarrow> Inr (map PStr (utf8_chars s))
      | PDict kvs \<Rightarrow> Inr (map (\<lambda>kv. PStr (fst kv)) kvs)
      | _ \<Rightarrow> Inl TypeError)"

text \<open>\<^verbatim>\<open>int(x)\<close> on a decoded value.\<close>

definition py_int :: "(string \<Rightarrow> int option) \<Rightarrow> pyval \<Rightarrow> pyexn + int" where
  "py_int parse x =
     (case x of
        PInt n \<Rightarrow> Inr n
      | PBool b \<Rightarrow> Inr (if b then 1 else 0)
      | PFloat f \<Rightarrow> int_of_float f
      | PStr s \<Rightarrow> (case parse s of Some n \<Rightarrow> Inr n | None \<Rightarrow> Inl ValueError)
      | _ \<Rightarrow> Inl TypeError)"

text \<open>\<^verbatim>\<open>x.title()\<close>: only a \<^verbatim>\<open>str\<close> has the method.\<close>

definition py_title :: "pyval \<Rightarrow> pyexn + string" where
  "py_title x = (case x of PStr s \<Rightarrow> Inr (str_title s) | _ \<Rightarrow> Inl AttributeError)"

text \<open>The days tried for a session, from its own day forward around the week.\<close>

definition candidate_days :: "nat \<Rightarrow> string list" where
  "candidate_days base_index =
     map (\<lambda>offset. DAYS_ORDER ! ((base_index + offset) mod length DAYS_ORDER))
       [0..<length DAYS_ORDER]"

text \<open>
  \<^verbatim>\<open>DAYS_ORDER.index(day)\<close> and the scan for a free day. When all the candidates are
  used the loop ends without a \<^verbatim>\<open>break\<close> and the day stays as it is.
\<close>

definition resolve_day :: "string \<Rightarrow> string set \<Rightarrow> pyexn + string \<times> string set" where
  "resolve_day day0 used_days =
     (case index_of day0 DAYS_ORDER of
        None \<Rightarrow> Inl ValueError
      | Some base_index \<Rightarrow>
          (case find (\<lambda>candidate_day. candidate_day \<notin> used_days) (candidate_days base_index) of
             Some candidate_day \<Rightarrow> Inr (candidate_day, insert candidate_day used_days)
           | None \<Rightarrow> Inr (day0, used_days)))"

definition default_day :: "pyval \<Rightarrow> string" where
  "default_day x =
     (case x of
        PStr d \<Rightarrow> if d \<in> set DAYS_ORDER then d else ''Mon''
      | _ \<Rightarrow> ''Mon'')"

definition intensity_factor :: "string \<Rightarrow> int" where
  "intensity_factor i =
     (if i = ''Easy'' then 1 else if i = ''Moderate'' then 2
      else if i = ''Hard'' then 3 else 2)"

definition safety_postscript :: "string \<Rightarrow> string" where
  "safety_postscript contraindications =
     ''\<newline>\<newline>If anything feels sharp, unusual or worrying, stop or reduce intensity. ''
     @ ''Context to remember: '' @ str_or contraindications ''no specific issues noted'' @ ''.''"

text \<open>The intensity after \<^verbatim>\<open>title()\<close>: kept when it is one of the three labels.\<close>

definition normalize_intensity :: "string \<Rightarrow> string" where
  "normalize_intensity titled =
     (if titled \<in> set [''Easy'', ''Moderate'', ''Hard''] then titled else ''Moderate'')"

text \<open>\<^verbatim>\<open>max(20, min(60, duration))\<close>\<close>

definition clamp_duration :: "int \<Rightarrow> int" where
  "clamp_duration d = max 20 (min 60 d)"

text \<open>The body of the loop over the items of the reply, after the \<^verbatim>\<open>break\<close> test.\<close>

definition sanitize_item ::
  "(string \<Rightarrow> int option) \<Rightarrow> string \<Rightarrow> string \<Rightarrow> pyval \<Rightarrow> string set
     \<Rightarrow> pyexn + SessionPlan \<times> string set" where
  "sanitize_item parse sport contraindications item used_days =
     and_then (dict_get item ''day'' (PStr ''Mon'')) (\<lambda>raw_day.
     and_then (resolve_day (default_day raw_day) used_days) (\<lambda>(d, used').
     and_then (dict_get item ''focus'' (PStr (sport @ '' session''))) (\<lambda>fo.
     and_then (dict_get item ''intensity'' (PStr ''Moderate'')) (\<lambda>raw_intensity.
     and_then (py_title raw_intensity) (\<lambda>titled.
     and_then (dict_get item ''duration_min'' (PInt 30)) (\<lambda>raw_duration.
     and_then (py_int parse raw_duration) (\<lambda>coerced.
     and_then (dict_get item ''notes'' (PStr [])) (\<lambda>raw_notes.
     and_then (iadd_str raw_notes (safety_postscript contraindications)) (\<lambda>n.
       Inr (\<lparr> day = d, focus = fo, intensity = normalize_intensity titled,
              duration_min = clamp_duration coerced,
              load_units = intensity_factor (normalize_intensity titled)
                             * clamp_duration coerced,
              notes = n \<rparr>, used'))))))))))"

text \<open>
  The loop \<^verbatim>\<open>for item in sessions_data\<close>: it stops at the first item met once the
  requested number of sessions is reached, without looking at that item.
\<close>

fun sanitize_items ::
  "(string \<Rightarrow> int option) \<Rightarrow> string \<Rightarrow> string \<Rightarrow> int \<Rightarrow> pyval list
     \<Rightarrow> SessionPlan list \<Rightarrow> string set \<Rightarrow> pyexn + SessionPlan list" where
  "sanitize_items parse sport contraindications n [] sessions used_days = Inr sessions"
| "sanitize_items parse sport contraindications n (item # items) sessions used_days =
     (if n \<le> int (length sessions) then Inr sessions
      else and_then (sanitize_item parse sport contraindications item used_days)
             (\<lambda>(s, used').
                sanitize_items parse sport contraindications n items (sessions @ [s]) used'))"

text \<open>The body of the \<^verbatim>\<open>try\<close> block.\<close>

definition ai_pipeline ::
  "external \<Rightarrow> string \<Rightarrow> string \<Rightarrow> int \<Rightarrow> int \<Rightarrow> string \<Rightarrow> pyexn + plan option" where
  "ai_pipeline ext sport level sessions_per_week last_week_load contraindications =
     and_then (total_minutes_target level sessions_per_week last_week_load) (\<lambda>target.
     and_then (decoded_reply ext) (\<lambda>data.
     and_then (dict_get data ''sessions'' (PList [])) (\<lambda>sessions_data.
     and_then (py_iter sessions_data) (\<lambda>items.
     and_then (sanitize_items (int_of_text ext) sport contraindications sessions_per_week
                 items [] {}) (\<lambda>sessions.
       if sessions = [] then Inr None
       else Inr (Some (sessions, sort_by_day sessions [0..<length sessions])))))))"

text \<open>\<^verbatim>\<open>try: ... except Exception: ...\<close>\<close>

definition try_except :: "pyexn + 'a \<Rightarrow> (pyexn \<Rightarrow> pyexn + 'a) \<Rightarrow> pyexn + 'a" where
  "try_except body handler = (case body of Inl e \<Rightarrow> handler e | Inr v \<Rightarrow> Inr v)"

definition generate_sessions_ai ::
  "external \<Rightarrow> string \<Rightarrow> string \<Rightarrow> int \<Rightarrow> int \<Rightarrow> string \<Rightarrow> pyexn + plan option" where
  "generate_sessions_ai ext sport level sessions_per_week last_week_load contraindications =
     (if \<not> openai_available ext then Inr None
      else try_except
             (ai_pipeline ext sport level sessions_per_week last_week_load contraindications)
             (\<lambda>e. Inr None))"

section \<open>The load guardrail\<close>

definition load_check_note :: "int \<Rightarrow> int \<Rightarrow> string" where
  "load_check_note current_total last_week_load =
     ''\<newline>\<newline>Load check: planned weekly load '' @ str_of_int current_total @ '' vs ''
     @ ''last week '' @ str_of_int last_week_load @ '' (within approximately +10% rule).''"

definition guardrail_note :: "int \<Rightarrow> int \<Rightarrow> string" where
  "guardrail_note last_week_load allowed_max =
     ''\<newline>\<newline>Load guardrail applied: weekly load reduced to stay within ''
     @ ''+10% of last week ('' @ str_of_int last_week_load @ '' '' @ right_arrow
     @ '' target '' @ le_sign @ '' '' @ str_of_int allowed_max @ '').''"

definition current_total_of :: "plan \<Rightarrow> int" where
  "current_total_of p = sum_list (map (\<lambda>r. load_units (fst p ! r)) (snd p))"

text \<open>\<^verbatim>\<open>max(int(last_week_load * 1.10), last_week_load + 20)\<close>\<close>

definition allowed_max_of :: "int \<Rightarrow> pyexn + int" where
  "allowed_max_of last_week_load =
     and_then (int_times_float last_week_load lit_1_10)
       (\<lambda>k. Inr (max k (last_week_load + 20)))"

text \<open>\<^verbatim>\<open>max(20, int(s.load_units * factor))\<close>\<close>

definition scaled_load :: "pyfloat \<Rightarrow> int \<Rightarrow> pyexn + int" where
  "scaled_load factor load =
     and_then (int_times_float load factor) (\<lambda>k. Inr (max 20 k))"

text \<open>
  The body of the scaling loop, on the record \<open>s\<close>: the load is replaced first, then the
  notes are appended to.
\<close>

definition scale_session :: "pyfloat \<Rightarrow> string \<Rightarrow> SessionPlan \<Rightarrow> pyexn + SessionPlan" where
  "scale_session factor note s =
     and_then (scaled_load factor (load_units s)) (\<lambda>new_load.
     and_then (iadd_str (notes s) note) (\<lambda>t.
       Inr (s\<lparr>load_units := new_load, notes := t\<rparr>)))"

text \<open>
  The scaling loop \<^verbatim>\<open>for s in sessions\<close>: each step updates, in the store, the record
  that the reference points to.
\<close>

fun scale_sessions :: "heap \<Rightarrow> nat list \<Rightarrow> pyfloat \<Rightarrow> string \<Rightarrow> pyexn + heap" where
  "scale_sessions h [] factor note = Inr h"
| "scale_sessions h (r # rs) factor note =
     and_then (scale_session factor note (h ! r))
       (\<lambda>s'. scale_sessions (h[r := s']) rs factor note)"

definition apply_weekly_load_guardrail :: "plan \<Rightarrow> int \<Rightarrow> pyexn + plan" where
  "apply_weekly_load_guardrail p last_week_load =
     (if last_week_load \<le> 0 then Inr p
      else
        let current_total = current_total_of p
        in and_then (allowed_max_of last_week_load) (\<lambda>allowed_max.
             if current_total \<le> allowed_max
             then (case snd p of
                     [] \<Rightarrow> Inl IndexError
                   | r # rs \<Rightarrow>
                       and_then
                         (iadd_str (notes (fst p ! r))
                            (load_check_note current_total last_week_load))
                         (\<lambda>t. Inr ((fst p)[r := (fst p ! r)\<lparr>notes := t\<rparr>], snd p)))
             else
               and_then (true_div allowed_max current_total) (\<lambda>factor.
               and_then (scale_sessions (fst p) (snd p) factor
                           (guardrail_note last_week_load allowed_max))
                 (\<lambda>h'. Inr (h', snd p)))))"

section \<open>The plan orchestrator\<close>

definition template_sessions :: "string \<Rightarrow> string \<Rightarrow> int \<Rightarrow> string \<Rightarrow> plan" where
  "template_sessions sport level sessions_per_week contraindications =
     (if str_lower sport = ''boxing''
      then generate_boxing_sessions_template level sessions_per_week contraindications
      else generate_generic_sessions_template sport level sessions_per_week contraindications)"

definition generate_week_plan ::
  "external \<Rightarrow> string \<Rightarrow> string \<Rightarrow> int \<Rightarrow> int \<Rightarrow> string \<Rightarrow> pyexn + plan" where
  "generate_week_plan ext sport level sessions_per_week last_week_load contraindications =
     and_then
       (generate_sessions_ai ext sport level sessions_per_week last_week_load
          contraindications)
       (\<lambda>ai_sessions.
          apply_weekly_load_guardrail
            (case ai_sessions of
               None \<Rightarrow> template_sessions sport level sessions_per_week contraindications
             | Some p \<Rightarrow>
                 if snd p \<noteq> [] then p
                 else template_sessions sport level sessions_per_week contraindications)
            last_week_load)"

section \<open>Vocabulary of the properties\<close>

text \<open>Two records agree on the fields that the guardrail never writes.\<close>

definition same_identity :: "SessionPlan \<Rightarrow> SessionPlan \<Rightarrow> bool" where
  "same_identity s t \<longleftrightarrow>
     day s = day t \<and> focus s = focus t \<and> intensity s = intensity t
     \<and> duration_min s = duration_min t"

text \<open>The loop body of the scaling loop applied \<open>k\<close> times to one record.\<close>

fun repeat_scale :: "nat \<Rightarrow> pyfloat \<Rightarrow> string \<Rightarrow> SessionPlan \<Rightarrow> pyexn + SessionPlan" where
  "repeat_scale 0 factor note s = Inr s"
| "repeat_scale (Suc k) factor note s =
     and_then (scale_session factor note s) (repeat_scale k factor note)"

text \<open>The loads and days that a reader of the returned list sees.\<close>

definition result_loads :: "pyexn + plan \<Rightarrow> pyexn + int list" where
  "result_loads r = map_sum id (\<lambda>p. map load_units (sessions_of p)) r"

definition result_days :: "pyexn + plan \<Rightarrow> pyexn + string list" where
  "result_days r = map_sum id (\<lambda>p. map day (sessions_of p)) r"

text \<open>A small record used to run the functions on concrete stores.\<close>

definition sample_session :: "string \<Rightarrow> int \<Rightarrow> SessionPlan" where
  "sample_session d l =
     \<lparr> day = d, focus = PStr ''Run'', intensity = ''Moderate'', duration_min = 30,
       load_units = l, notes = PStr [] \<rparr>"

definition result_notes_changed :: "plan \<Rightarrow> pyexn + plan \<Rightarrow> pyexn + bool list" where
  "result_notes_changed p r =
     map_sum id (\<lambda>p'. map2 (\<lambda>s s'. notes s \<noteq> notes s') (sessions_of p) (sessions_of p')) r"

text \<open>Records whose notes the guardrail can append to: a \<^verbatim>\<open>str\<close> or a \<^verbatim>\<open>list\<close>.\<close>

definition notes_appendable :: "SessionPlan \<Rightarrow> bool" where
  "notes_appendable s = (case notes s of PStr t \<Rightarrow> True | PList xs \<Rightarrow> True | _ \<Rightarrow> False)"

text \<open>
  Three outer worlds: no client configured; a client whose request fails; a client whose
  reply decodes to a given value.
\<close>

definition no_service :: external where
  "no_service =
     \<lparr> openai_available = False, decoded_reply = Inl ServiceError, int_of_text = (\<lambda>s. None) \<rparr>"

definition failing_service :: external where
  "failing_service =
     \<lparr> openai_available = True, decoded_reply = Inl ServiceError, int_of_text = (\<lambda>s. None) \<rparr>"

definition replying_service :: "pyval \<Rightarrow> external" where
  "replying_service v =
     \<lparr> openai_available = True, decoded_reply = Inr v, int_of_text = (\<lambda>s. None) \<rparr>"


text \<open>The sessions of a plan are in the order of the day index.\<close>

definition sorted_by_day :: "plan \<Rightarrow> bool" where
  "sorted_by_day p \<longleftrightarrow> sorted (map (\<lambda>s. day_key (day s)) (sessions_of p))"

definition result_sorted :: "pyexn + plan \<Rightarrow> pyexn + bool" where
  "result_sorted r = map_sum id sorted_by_day r"

text \<open>What a reader of the AI path's result sees: the days, and the sanitized fields.\<close>

definition result_ai_days :: "pyexn + plan option \<Rightarrow> pyexn + string list option" where
  "result_ai_days r = map_sum id (map_option (\<lambda>p. map day (sessions_of p))) r"

definition result_ai_fields ::
  "pyexn + plan option \<Rightarrow> pyexn + (string \<times> int \<times> int) list option" where
  "result_ai_fields r =
     map_sum id
       (map_option (\<lambda>p. map (\<lambda>s. (intensity s, duration_min s, load_units s)) (sessions_of p)))
       r"

text \<open>Decoded replies: one item per given day; one item per given intensity and duration.\<close>

definition reply_with_days :: "pyval list \<Rightarrow> pyval" where
  "reply_with_days ds = PDict [(''sessions'', PList (map (\<lambda>d. PDict [(''day'', d)]) ds))]"

definition reply_with_fields :: "(pyval \<times> pyval) list \<Rightarrow> pyval" where
  "reply_with_fields xs =
     PDict [(''sessions'',
       PList (map (\<lambda>(i, d). PDict [(''intensity'', i), (''duration_min'', d),
                                   (''load_units'', PInt 999)]) xs))]"

section \<open>Sequencing and in-place append\<close>

lemma and_then_Inr [simp]: "and_then (Inr x) f = f x"
  by (simp add: and_then_def)

lemma and_then_Inl [simp]: "and_then (Inl e) f = Inl e"
  by (simp add: and_then_def)

lemma and_then_eq_Inr: "and_then m f = Inr y \<longleftrightarrow> (\<exists>x. m = Inr x \<and> f x = Inr y)"
  by (cases m) simp_all

lemma and_then_eq_Inl: "and_then m f = Inl e \<longleftrightarrow> m = Inl e \<or> (\<exists>x. m = Inr x \<and> f x = Inl e)"
  by (cases m) auto

lemma iadd_str_Inr:
  "iadd_str x t = Inr y \<longleftrightarrow>
     (\<exists>s. x = PStr s \<and> y = PStr (s @ t))
     \<or> (\<exists>xs. x = PList xs \<and> y = PList (xs @ map PStr (utf8_chars t)))"
  by (cases x) (auto simp: iadd_str_def)

section \<open>Facts about binary64 rounding\<close>

lemma bit_length_0 [simp]: "bit_length 0 = 0"
  by (subst bit_length.simps) simp

lemma bit_length_1 [simp]: "bit_length (Suc 0) = Suc 0"
  by (subst bit_length.simps) simp

lemma bit_length_pos: "0 < n \<Longrightarrow> 0 < bit_length n"
  by (subst bit_length.simps) simp

lemma bit_length_bounds:
  "0 < n \<Longrightarrow> 2 ^ (bit_length n - 1) \<le> n \<and> n < 2 ^ bit_length n"
proof (induction n rule: bit_length.induct)
  case (1 n)
  show ?case
  proof (cases "n div 2 = 0")
    case True
    with "1.prems" have "n = 1" by (simp add: div_eq_0_iff)
    then show ?thesis by simp
  next
    case False
    with "1.IH" "1.prems"
    have ih: "2 ^ (bit_length (n div 2) - 1) \<le> n div 2" "n div 2 < 2 ^ bit_length (n div 2)"
      by simp_all
    have pos: "0 < bit_length (n div 2)"
      using False by (simp add: bit_length_pos)
    have eq: "bit_length n = Suc (bit_length (n div 2))"
      using "1.prems" by (subst bit_length.simps) simp
    have "(2::nat) ^ bit_length (n div 2) = 2 * 2 ^ (bit_length (n div 2) - 1)"
      using pos by (cases "bit_length (n div 2)") simp_all
    with ih(1) have "2 ^ bit_length (n div 2) \<le> 2 * (n div 2)" by simp
    then have lo: "2 ^ bit_length (n div 2) \<le> n" by linarith
    from ih(2) have "n div 2 + 1 \<le> 2 ^ bit_length (n div 2)" by simp
    then have "2 * (n div 2) + 2 \<le> 2 * 2 ^ bit_length (n div 2)" by simp
    then have hi: "n < 2 * 2 ^ bit_length (n div 2)" by linarith
    from lo hi show ?thesis by (simp add: eq)
  qed
qed

lemma ilog2_bounds:
  assumes "0 < x"
  shows "2 powi (ilog2 x) \<le> x \<and> x < 2 powi (ilog2 x + 1)"
proof (cases "1 \<le> x")
  case True
  define n where "n = nat \<lfloor>x\<rfloor>"
  have n: "0 < n" "of_nat n \<le> x" "x < of_nat n + 1"
    using True by (simp_all add: n_def le_floor_iff) linarith+
  have e: "ilog2 x = int (bit_length n) - 1"
    using True by (simp add: ilog2_def n_def)
  from bit_length_bounds [OF n(1)] have b: "2 ^ (bit_length n - 1) \<le> n" "n < 2 ^ bit_length n"
    by simp_all
  have bp: "0 < bit_length n" using n(1) by (rule bit_length_pos)
  have p1: "(2::rat) powi (int (bit_length n) - 1) = 2 ^ (bit_length n - 1)"
    using bp by (simp add: power_int_def nat_diff_distrib')
  have p2: "(2::rat) powi (int (bit_length n) - 1 + 1) = 2 ^ bit_length n"
    by simp
  have lo: "(2::rat) ^ (bit_length n - 1) \<le> of_nat n"
    using b(1) by (metis of_nat_le_iff of_nat_numeral of_nat_power)
  have up: "(of_nat n :: rat) + 1 \<le> 2 ^ bit_length n"
  proof -
    from b(2) have "n + 1 \<le> 2 ^ bit_length n" by simp
    then have "(of_nat (n + 1) :: rat) \<le> of_nat (2 ^ bit_length n)"
      by (simp only: of_nat_le_iff)
    then show ?thesis by simp
  qed
  show ?thesis
    unfolding e p1 p2 using lo up n(2,3) by linarith
next
  case False
  define m where "m = nat (\<lceil>1 / x\<rceil> - 1)"
  from False assms have inv: "1 < 1 / x" by simp
  then have c2: "2 \<le> \<lceil>1 / x\<rceil>" by linarith
  have m2: "int m = \<lceil>1 / x\<rceil> - 1"
    unfolding m_def using c2 by (intro nat_0_le) linarith
  have m1: "0 < m" using m2 c2 by linarith
  note m = m1 m2
  have m_lt: "of_nat m < 1 / x"
  proof -
    have "of_int (\<lceil>1 / x\<rceil> - 1) < 1 / x" by linarith
    then show ?thesis using m(2) by (metis of_int_of_nat_eq)
  qed
  have m_ge: "1 / x \<le> of_nat m + 1"
  proof -
    have "1 / x \<le> of_int \<lceil>1 / x\<rceil>" by linarith
    also have "\<dots> = of_int (int m + 1)" using m(2) by simp
    finally show ?thesis by simp
  qed
  have e: "ilog2 x = - int (bit_length m)"
    by (simp only: ilog2_def m_def False if_False)
  from bit_length_bounds [OF m(1)] have b: "2 ^ (bit_length m - 1) \<le> m" "m < 2 ^ bit_length m"
    by simp_all
  have bp: "0 < bit_length m" using m(1) by (rule bit_length_pos)
  have up: "(of_nat m :: rat) + 1 \<le> 2 ^ bit_length m"
  proof -
    from b(2) have "m + 1 \<le> 2 ^ bit_length m" by simp
    then have "(of_nat (m + 1) :: rat) \<le> of_nat (2 ^ bit_length m)"
      by (simp only: of_nat_le_iff)
    then show ?thesis by simp
  qed
  have lo: "(2::rat) ^ (bit_length m - 1) \<le> of_nat m"
    using b(1) by (metis of_nat_le_iff of_nat_numeral of_nat_power)
  have "1 / x \<le> 2 ^ bit_length m" using m_ge up by linarith
  then have "1 \<le> 2 ^ bit_length m * x" using assms by (simp add: field_simps)
  then have first: "2 powi (- int (bit_length m)) \<le> x"
    by (simp add: power_int_minus field_simps)
  have "2 ^ (bit_length m - 1) < 1 / x" using lo m_lt by linarith
  then have "x * 2 ^ (bit_length m - 1) < 1" using assms by (simp add: field_simps)
  then have lt: "x < 1 / 2 ^ (bit_length m - 1)"
    by (simp add: pos_less_divide_eq)
  have pw: "(2::rat) powi (- int (bit_length m) + 1) = 1 / 2 ^ (bit_length m - 1)"
  proof -
    have "- int (bit_length m) + 1 = - int (bit_length m - 1)" using bp by simp
    then show ?thesis by (simp only: power_int_minus_divide power_int_of_nat)
  qed
  have second: "x < 2 powi (- int (bit_length m) + 1)"
    using lt by (simp only: pw)
  from first second show ?thesis by (simp add: e)
qed


lemma ilog2_less:
  assumes "0 < x" "x < 2 powi k"
  shows "ilog2 x < k"
proof (rule ccontr)
  assume "\<not> ilog2 x < k"
  then have "(2::rat) powi k \<le> 2 powi (ilog2 x)"
    by (intro power_int_increasing) simp_all
  with ilog2_bounds [OF assms(1)] assms(2) show False by linarith
qed

lemma ilog2_ge:
  assumes "0 < x" "2 powi k \<le> x"
  shows "k \<le> ilog2 x"
proof (rule ccontr)
  assume "\<not> k \<le> ilog2 x"
  then have "(2::rat) powi (ilog2 x + 1) \<le> 2 powi k"
    by (intro power_int_increasing) simp_all
  with ilog2_bounds [OF assms(1)] assms(2) show False by linarith
qed

lemma ilog2_0 [simp]: "ilog2 0 = 0"
  by (simp add: ilog2_def)

lemma round_half_even_of_int [simp]: "round_half_even (of_int k) = k"
  by (simp add: round_half_even_def)

lemma round_half_even_le:
  assumes "m \<le> of_int K"
  shows "round_half_even m \<le> K"
proof -
  have fl: "\<lfloor>m\<rfloor> \<le> K" using assms by (simp add: floor_le_iff)
  have "\<lfloor>m\<rfloor> + 1 \<le> K" if "m \<noteq> of_int \<lfloor>m\<rfloor>"
  proof -
    have "of_int \<lfloor>m\<rfloor> < m" using that by (metis less_le of_int_floor_le)
    with assms have "(of_int \<lfloor>m\<rfloor> :: rat) < of_int K" by linarith
    then show ?thesis by simp
  qed
  with fl show ?thesis
    by (auto simp: round_half_even_def Let_def)
qed

lemma round_half_even_ge:
  assumes "of_int K \<le> m"
  shows "K \<le> round_half_even m"
proof -
  have "K \<le> \<lfloor>m\<rfloor>" using assms by (simp add: le_floor_iff)
  then show ?thesis by (auto simp: round_half_even_def Let_def)
qed

lemma round_half_even_near: "\<bar>of_int (round_half_even m) - m\<bar> \<le> 1 / 2"
proof -
  have "of_int \<lfloor>m\<rfloor> \<le> m" "m < of_int \<lfloor>m\<rfloor> + 1" by linarith+
  then show ?thesis
    by (auto simp: round_half_even_def Let_def abs_le_iff)
qed

lemma quantum_pos [simp]: "0 < quantum x"
  by (simp add: quantum_def)

lemma round_nearest_pos_eq:
  "0 < x \<Longrightarrow> round_nearest x = of_int (round_half_even (x / quantum x)) * quantum x"
  by (simp add: round_nearest_def)

lemma round_nearest_neg: "round_nearest (- x) = - round_nearest x"
  by (simp add: round_nearest_def quantum_def sgn_minus)

lemma round_nearest_0 [simp]: "round_nearest 0 = 0"
  by (simp add: round_nearest_def)

lemma round_nearest_le:
  assumes "0 < x" "x \<le> of_int K * quantum x"
  shows "round_nearest x \<le> of_int K * quantum x"
proof -
  have "x / quantum x \<le> of_int K"
    using assms(2) by (simp add: pos_divide_le_eq)
  then have "round_half_even (x / quantum x) \<le> K" by (rule round_half_even_le)
  then have "(of_int (round_half_even (x / quantum x)) :: rat) \<le> of_int K" by simp
  then show ?thesis
    using assms(1) by (simp add: round_nearest_pos_eq)
qed

lemma round_nearest_ge:
  assumes "0 < x" "of_int K * quantum x \<le> x"
  shows "of_int K * quantum x \<le> round_nearest x"
proof -
  have "of_int K \<le> x / quantum x"
    using assms(2) by (simp add: pos_le_divide_eq)
  then have "K \<le> round_half_even (x / quantum x)" by (rule round_half_even_ge)
  then have "(of_int K :: rat) \<le> of_int (round_half_even (x / quantum x))" by simp
  then show ?thesis
    using assms(1) by (simp add: round_nearest_pos_eq)
qed

lemma round_nearest_nonneg: "0 \<le> x \<Longrightarrow> 0 \<le> round_nearest x"
  using round_nearest_ge [of x 0] by (cases "x = 0") simp_all

text \<open>A multiple of \<open>2 powi j\<close> is a multiple of the quantum when the quantum is not coarser.\<close>

lemma multiple_of_quantum:
  assumes "0 < x" "x < 2 powi (j + 53)" "- 1074 \<le> j"
  shows "\<exists>K. of_int N * 2 powi j = of_int K * quantum x"
proof -
  define qe where "qe = max (ilog2 \<bar>x\<bar> - 52) (- 1074)"
  have "ilog2 x < j + 53" using assms(1,2) by (rule ilog2_less)
  then have le: "qe \<le> j" using assms(1,3) by (simp add: qe_def)
  have q: "quantum x = 2 powi qe" by (simp add: quantum_def qe_def)
  have "(2::rat) powi j = 2 powi (j - qe + qe)" by simp
  also have "\<dots> = 2 powi (j - qe) * 2 powi qe"
    by (subst power_int_add) simp_all
  also have "(2::rat) powi (j - qe) = of_int (2 ^ nat (j - qe))"
    using le by (simp add: power_int_def)
  finally have "of_int N * 2 powi j = of_int (N * 2 ^ nat (j - qe)) * quantum x"
    by (simp add: q)
  then show ?thesis ..
qed

lemma round_nearest_le_dyadic:
  assumes "0 < x" "x \<le> of_int N * 2 powi j" "x < 2 powi (j + 53)" "- 1074 \<le> j"
  shows "round_nearest x \<le> of_int N * 2 powi j"
proof -
  from multiple_of_quantum [OF assms(1,3,4)] obtain K
    where K: "of_int N * 2 powi j = of_int K * quantum x" by blast
  with round_nearest_le [of x K] assms(1,2) show ?thesis by simp
qed

lemma round_nearest_ge_dyadic:
  assumes "0 < x" "of_int N * 2 powi j \<le> x" "x < 2 powi (j + 53)" "- 1074 \<le> j"
  shows "of_int N * 2 powi j \<le> round_nearest x"
proof -
  from multiple_of_quantum [OF assms(1,3,4)] obtain K
    where K: "of_int N * 2 powi j = of_int K * quantum x" by blast
  with round_nearest_ge [of x K] assms(1,2) show ?thesis by simp
qed

lemma round_nearest_le_int:
  assumes "0 < x" "x \<le> of_int N" "x < 2 ^ 53"
  shows "round_nearest x \<le> of_int N"
  using round_nearest_le_dyadic [of x N 0] assms by simp

lemma round_nearest_ge_int:
  assumes "0 < x" "of_int N \<le> x" "x < 2 ^ 53"
  shows "of_int N \<le> round_nearest x"
  using round_nearest_ge_dyadic [of x N 0] assms by simp

lemma round_nearest_of_int:
  assumes "\<bar>n\<bar> < 2 ^ 53"
  shows "round_nearest (of_int n) = of_int n"
proof -
  have pos: "round_nearest (of_int k) = of_int k" if "0 < k" "k < 2 ^ 53" for k :: int
  proof -
    have "(of_int k :: rat) < of_int (2 ^ 53)" using that(2) by (simp only: of_int_less_iff)
    then have lt: "(of_int k :: rat) < 2 ^ 53" by simp
    have "0 < (of_int k :: rat)" using that(1) by simp
    from round_nearest_le_int [OF this _ lt, of k] round_nearest_ge_int [OF this _ lt, of k]
    show ?thesis by simp
  qed
  consider "n = 0" | "0 < n" | "n < 0" by linarith
  then show ?thesis
  proof cases
    case 1
    then show ?thesis by simp
  next
    case 2
    with assms show ?thesis by (intro pos) simp_all
  next
    case 3
    with assms have "round_nearest (of_int (- n)) = of_int (- n)" by (intro pos) simp_all
    then show ?thesis by (simp add: round_nearest_neg)
  qed
qed

lemma round_to_double_finite:
  assumes "\<bar>round_nearest x\<bar> < 2 ^ 1024"
  shows "round_to_double x = Finite (round_nearest x)"
proof -
  have "ilog2 \<bar>round_nearest x\<bar> < 1024"
  proof (cases "round_nearest x = 0")
    case True
    then show ?thesis by simp
  next
    case False
    then have "0 < \<bar>round_nearest x\<bar>" by simp
    moreover have "\<bar>round_nearest x\<bar> < 2 powi 1024" using assms by simp
    ultimately show ?thesis by (rule ilog2_less)
  qed
  then show ?thesis by (simp add: round_to_double_def Let_def)
qed

lemma float_of_int_exact:
  assumes "\<bar>n\<bar> < 2 ^ 53"
  shows "float_of_int n = Inr (Finite (of_int n))"
proof -
  have "(of_int \<bar>n\<bar> :: rat) < of_int (2 ^ 53)" using assms by (simp only: of_int_less_iff)
  then have "\<bar>of_int n :: rat\<bar> < 2 ^ 53" by simp
  also have "(2::rat) ^ 53 < 2 ^ 1024" by simp
  finally have "\<bar>round_nearest (of_int n)\<bar> < 2 ^ 1024"
    by (simp add: round_nearest_of_int [OF assms])
  then show ?thesis
    by (simp add: float_of_int_def round_to_double_finite round_nearest_of_int [OF assms])
qed

lemma true_div_factor:
  assumes "0 < a" "a < c"
  shows "\<exists>q. true_div a c = Inr (Finite q) \<and> 0 \<le> q \<and> q \<le> 1"
proof -
  define x :: rat where "x = of_int a / of_int c"
  have x: "0 < x" "x \<le> 1" using assms by (simp_all add: x_def)
  have one: "(1::rat) < 2 ^ 53" by simp
  from x(2) one have "x < 2 ^ 53" by (rule le_less_trans)
  with round_nearest_le_int [of x 1] x have le: "round_nearest x \<le> 1" by simp
  have ge: "0 \<le> round_nearest x" using x(1) by (intro round_nearest_nonneg) simp
  have "\<bar>round_nearest x\<bar> \<le> 1" using le ge by simp
  moreover have "(1::rat) < 2 ^ 1024" by simp
  ultimately have "\<bar>round_nearest x\<bar> < 2 ^ 1024" by (rule le_less_trans)
  then have fin: "round_to_double x = Finite (round_nearest x)" by (rule round_to_double_finite)
  have "c \<noteq> 0" using assms by simp
  then have "true_div a c = Inr (Finite (round_nearest x))"
    by (simp only: true_div_def if_False x_def [symmetric] fin pyfloat.case)
  with le ge show ?thesis by blast
qed

lemma int_times_float_shrinks:
  assumes "0 \<le> y" "y < 2 ^ 53" "0 \<le> q" "q \<le> 1"
  shows "\<exists>k. int_times_float y (Finite q) = Inr k \<and> 0 \<le> k \<and> k \<le> y"
proof -
  have ylt: "(of_int y :: rat) < 2 ^ 53"
  proof -
    have "(of_int y :: rat) < of_int (2 ^ 53)" using assms(2) by (simp only: of_int_less_iff)
    then show ?thesis by simp
  qed
  define x :: rat where "x = of_int y * q"
  have x: "0 \<le> x" "x \<le> of_int y"
    using assms by (simp_all add: x_def mult_left_le)
  have le: "round_nearest x \<le> of_int y"
  proof (cases "x = 0")
    case True
    then show ?thesis using assms(1) by simp
  next
    case False
    with x have "0 < x" by simp
    moreover have "x < 2 ^ 53" using x(2) ylt by linarith
    ultimately show ?thesis using x(2) by (intro round_nearest_le_int)
  qed
  have ge: "0 \<le> round_nearest x" using x(1) by (rule round_nearest_nonneg)
  have "\<bar>round_nearest x\<bar> < 2 ^ 53" using le ge ylt by linarith
  also have "(2::rat) ^ 53 < 2 ^ 1024" by simp
  finally have fin: "round_to_double x = Finite (round_nearest x)"
    by (rule round_to_double_finite)
  have fy: "float_of_int y = Inr (Finite (of_int y))"
    using assms(1,2) by (intro float_of_int_exact) simp
  have "int_times_float y (Finite q) = Inr \<lfloor>round_nearest x\<rfloor>"
    using ge [unfolded x_def]
    by (simp add: int_times_float_def fy fin [unfolded x_def] int_of_float_def x_def)
  moreover have "0 \<le> \<lfloor>round_nearest x\<rfloor>" using ge by simp
  moreover have "\<lfloor>round_nearest x\<rfloor> \<le> y" using le by (simp add: floor_le_iff)
  ultimately show ?thesis by blast
qed

lemma int_times_float_negative:
  assumes "y \<le> 0" "- (2 ^ 53) < y" "0 \<le> q" "q \<le> 1"
  shows "\<exists>k. int_times_float y (Finite q) = Inr k \<and> k \<le> 0"
proof -
  define x :: rat where "x = of_int (- y) * q"
  define R where "R = round_nearest (of_int y * q)"
  have "- y < 2 ^ 53" using assms(2) by simp
  then have "(of_int (- y) :: rat) < of_int (2 ^ 53)" by (simp only: of_int_less_iff)
  then have ylt: "(of_int (- y) :: rat) < 2 ^ 53" by simp
  have ny: "0 \<le> (of_int (- y) :: rat)" using assms(1) by simp
  have x1: "0 \<le> x" unfolding x_def using ny assms(3) by (rule mult_nonneg_nonneg)
  have x2: "x \<le> of_int (- y)" unfolding x_def using assms(4) ny by (rule mult_left_le)
  note x = x1 x2
  have le: "round_nearest x \<le> of_int (- y)"
  proof (cases "x = 0")
    case True
    then show ?thesis using assms(1) by simp
  next
    case False
    with x have "0 < x" by simp
    moreover have "x < 2 ^ 53" using x(2) ylt by linarith
    ultimately show ?thesis using x(2) by (intro round_nearest_le_int)
  qed
  have ge: "0 \<le> round_nearest x" using x(1) by (rule round_nearest_nonneg)
  have "of_int y * q = - x" by (simp add: x_def)
  then have rn: "R = - round_nearest x"
    by (simp only: R_def round_nearest_neg)
  have "\<bar>R\<bar> < 2 ^ 53" using le ge ylt rn by linarith
  also have "(2::rat) ^ 53 < 2 ^ 1024" by simp
  finally have "round_to_double (of_int y * q) = Finite R"
    unfolding R_def by (rule round_to_double_finite)
  moreover have fy: "float_of_int y = Inr (Finite (of_int y))"
    using assms(1,2) by (intro float_of_int_exact) simp
  ultimately have "int_times_float y (Finite q) = Inr (if 0 \<le> R then \<lfloor>R\<rfloor> else \<lceil>R\<rceil>)"
    by (simp add: int_times_float_def int_of_float_def)
  moreover have "(if 0 \<le> R then \<lfloor>R\<rfloor> else \<lceil>R\<rceil>) \<le> 0"
  proof (cases "0 \<le> R")
    case True
    with rn ge have "R = 0" by linarith
    then show ?thesis by simp
  next
    case False
    then have "R \<le> of_int 0" by simp
    then have "\<lceil>R\<rceil> \<le> 0" by (simp only: ceiling_le_iff)
    with False show ?thesis by simp
  qed
  ultimately show ?thesis by blast
qed

lemma scaled_load_bounds:
  assumes "\<bar>y\<bar> < 2 ^ 53" "0 \<le> q" "q \<le> 1"
  shows "\<exists>z. scaled_load (Finite q) y = Inr z \<and> 20 \<le> z \<and> z \<le> max 20 y"
proof (cases "0 \<le> y")
  case True
  with assms int_times_float_shrinks [of y q] obtain k
    where "int_times_float y (Finite q) = Inr k" "0 \<le> k" "k \<le> y" by auto
  then show ?thesis by (simp add: scaled_load_def)
next
  case False
  with assms int_times_float_negative [of y q] obtain k
    where "int_times_float y (Finite q) = Inr k" "k \<le> 0" by auto
  then show ?thesis by (simp add: scaled_load_def)
qed

lemma lit_1_10_value: "lit_1_10 = Finite (2476979795053773 / 2251799813685248)"
  by code_simp

lemma allowed_max_of_floor:
  assumes "0 < lw" "lw < 2 ^ 46"
  shows "allowed_max_of lw = Inr (max (11 * lw div 10) (lw + 20))"
proof -
  define t where "t = 11 * lw div 10"
  define r where "r = 11 * lw mod 10"
  define x :: rat where "x = of_int lw * (2476979795053773 / 2251799813685248)"
  have split: "11 * lw = 10 * t + r" and r: "0 \<le> r" "r \<le> 9"
    by (simp_all add: t_def r_def) 
  have "(of_int (11 * lw) :: rat) = of_int (10 * t + r)" by (simp only: split)
  then have lw_eq: "11 * (of_int lw :: rat) = 10 * of_int t + of_int r" by simp
  have r': "0 \<le> (of_int r :: rat)" "(of_int r :: rat) \<le> 9" using r by simp_all
  have lwb: "0 < (of_int lw :: rat)" "(of_int lw :: rat) < 2 ^ 46"
  proof -
    show "0 < (of_int lw :: rat)" using assms(1) by simp
    have "(of_int lw :: rat) < of_int (2 ^ 46)" using assms(2) by (simp only: of_int_less_iff)
    then show "(of_int lw :: rat) < 2 ^ 46" by simp
  qed
  have lwn: "(of_int lw :: rat) < 70368744177664" using lwb(2) by simp
  have xeq: "x = 11 * of_int lw / 10 + of_int lw / 11258999068426240"
    by (simp add: x_def field_simps)
  have x_lo: "of_int t \<le> x"
    unfolding xeq using lw_eq r' lwb(1) by linarith
  have q16: "of_int (16 * t + 15) * 2 powi (- 4) = (of_int t :: rat) + 15 / 16"
    by (simp add: power_int_minus field_simps)
  have x_hi: "x \<le> of_int (16 * t + 15) * 2 powi (- 4)"
    unfolding xeq q16 using lw_eq r' lwn lwb(1) by linarith
  have xpos: "0 < x" using lwb by (simp add: x_def)
  have x47: "x < 140737488355328" unfolding xeq using lwn lwb(1) by linarith
  have x53: "x < 2 ^ 53" using x47 by simp
  with round_nearest_ge_int [OF xpos x_lo] have lo: "of_int t \<le> round_nearest x" by simp
  have "(2::rat) powi (- 4 + 53) = 562949953421312" by simp
  then have "x < 2 powi (- 4 + 53)" using x47 by linarith
  with round_nearest_le_dyadic [OF xpos x_hi] have "round_nearest x \<le> of_int (16 * t + 15) * 2 powi (- 4)"
    by simp
  then have hi: "round_nearest x < of_int t + 1" unfolding q16 by linarith
  have tnn: "0 \<le> t" using assms(1) by (simp add: t_def)
  have fl: "\<lfloor>round_nearest x\<rfloor> = t" using lo hi by (simp add: floor_eq_iff)
  have nn: "0 \<le> round_nearest x" using lo tnn by (meson of_int_0_le_iff order_trans)
  have "\<bar>round_nearest x\<bar> < 140737488355329" using hi nn x_lo x47 by linarith
  also have "(140737488355329::rat) < 2 ^ 1024" by simp
  finally have fin: "round_to_double x = Finite (round_nearest x)" by (rule round_to_double_finite)
  have fy: "float_of_int lw = Inr (Finite (of_int lw))"
    using assms by (intro float_of_int_exact) simp
  have prod: "float_mul (Finite (of_int lw)) lit_1_10 = Finite (round_nearest x)"
    unfolding lit_1_10_value float_mul.simps x_def [symmetric] by (rule fin)
  have "int_of_float (Finite (round_nearest x)) = Inr t"
    using nn fl by (simp add: int_of_float_def)
  then have "int_times_float lw lit_1_10 = Inr t"
    by (simp only: int_times_float_def fy and_then_Inr prod)
  then show ?thesis by (simp add: allowed_max_of_def t_def)
qed

lemma round_half_even_below:
  assumes "m < of_int K - 1 / 2"
  shows "round_half_even m \<le> K - 1"
proof -
  have fl: "of_int \<lfloor>m\<rfloor> \<le> m" by linarith
  with assms have "(of_int \<lfloor>m\<rfloor> :: rat) < of_int K" by linarith
  then have le: "\<lfloor>m\<rfloor> \<le> K - 1" by simp
  show ?thesis
  proof (cases "\<lfloor>m\<rfloor> = K - 1")
    case True
    then have "(of_int \<lfloor>m\<rfloor> :: rat) = of_int K - 1" by simp
    with assms have "m - of_int \<lfloor>m\<rfloor> < 1 / 2" by linarith
    then show ?thesis using True by (simp add: round_half_even_def Let_def)
  next
    case False
    with le have "\<lfloor>m\<rfloor> + 1 \<le> K - 1" by simp
    then show ?thesis by (auto simp: round_half_even_def Let_def)
  qed
qed

lemma quantum_nonzero [simp]: "quantum x \<noteq> 0"
  using quantum_pos [of x] by (simp del: quantum_pos)

lemma quantum_below:
  assumes "0 < x" "x < y" "1 \<le> y"
  shows "quantum x < y / 2 ^ 52"
proof (cases "- 1074 \<le> ilog2 x - 52")
  case True
  then have "max (ilog2 x - 52) (- 1074) = ilog2 x - 52" by (rule max_absorb1)
  then have "quantum x = 2 powi (ilog2 x - 52)"
    by (simp only: quantum_def abs_of_pos [OF assms(1)])
  also have "\<dots> = 2 powi (ilog2 x) / 2 ^ 52"
    by (simp add: power_int_diff)
  also have "\<dots> \<le> x / 2 ^ 52"
    using ilog2_bounds [OF assms(1)] by (simp add: divide_right_mono)
  also have "\<dots> < y / 2 ^ 52"
    using assms(2) by (simp add: divide_strict_right_mono)
  finally show ?thesis .
next
  case False
  then have "ilog2 x - 52 \<le> - 1074" by simp
  then have "max (ilog2 x - 52) (- 1074) = - 1074" by (rule max_absorb2)
  then have "quantum x = 2 powi (- 1074)"
    by (simp only: quantum_def abs_of_pos [OF assms(1)])
  also have "(2::rat) powi (- 1074) < 2 powi (- 52)"
    by (intro power_int_strict_increasing) simp_all
  also have "(2::rat) powi (- 52) = 1 / 2 ^ 52"
    by (simp add: power_int_minus_divide)
  also have "\<dots> \<le> y / 2 ^ 52"
    using assms(3) by (simp add: divide_right_mono)
  finally show ?thesis .
qed

lemma round_nearest_strictly_below:
  assumes "0 < y" "y < 2 ^ 53" "0 \<le> q" "q \<le> 1 - 1 / 2 ^ 53"
  shows "round_nearest (of_int y * q) < of_int y"
proof (cases "of_int y * q = (0::rat)")
  case True
  then show ?thesis using assms(1) by simp
next
  case False
  define x :: rat where "x = of_int y * q"
  have y1: "(1::rat) \<le> of_int y" using assms(1) by simp
  have "(of_int y :: rat) < of_int (2 ^ 53)" using assms(2) by (simp only: of_int_less_iff)
  then have ylt: "(of_int y :: rat) < 2 ^ 53" by simp
  have x0: "0 \<le> x" using assms(1,3) by (simp add: x_def)
  have "0 \<noteq> x" using False by (simp only: x_def)
  with x0 have xpos: "0 < x" by (rule le_neq_trans)
  have "of_int y * q \<le> of_int y * (1 - 1 / 2 ^ 53)"
    using assms(4) y1 by (intro mult_left_mono) simp_all
  then have xle: "x \<le> of_int y - of_int y / 2 ^ 53"
    by (simp add: x_def algebra_simps)
  then have xlt: "x < of_int y" using y1 by (simp add: less_le_trans [OF _ le_refl]) 
  have x53: "x < 2 powi (0 + 53)" using xlt ylt by simp
  from multiple_of_quantum [OF xpos x53, of y] obtain K
    where K: "of_int y = of_int K * quantum x" by auto
  have qb: "quantum x < of_int y / 2 ^ 52" using xpos xlt y1 by (rule quantum_below)
  have "x < of_int y - quantum x / 2"
  proof -
    have "quantum x / 2 < of_int y / 2 ^ 52 / 2" using qb by simp
    also have "\<dots> = of_int y / 2 ^ 53" by simp
    finally show ?thesis using xle by linarith
  qed
  then have "x / quantum x < (of_int y - quantum x / 2) / quantum x"
    by (simp add: divide_strict_right_mono)
  also have "\<dots> = of_int K - 1 / 2"
    by (simp add: K diff_divide_distrib)
  finally have "round_half_even (x / quantum x) \<le> K - 1" by (rule round_half_even_below)
  then have "(of_int (round_half_even (x / quantum x)) :: rat) \<le> of_int (K - 1)"
    by (simp only: of_int_le_iff)
  then have "of_int (round_half_even (x / quantum x)) * quantum x \<le> of_int (K - 1) * quantum x"
    by (simp add: mult_right_mono)
  also have "\<dots> = of_int y - quantum x" by (simp add: K algebra_simps)
  also have "\<dots> < of_int y" by simp
  finally show ?thesis using xpos by (simp add: round_nearest_pos_eq x_def)
qed

lemma int_times_float_value:
  assumes "0 \<le> y" "y < 2 ^ 53" "0 \<le> q" "q \<le> 1"
  shows "int_times_float y (Finite q) = Inr \<lfloor>round_nearest (of_int y * q)\<rfloor>"
    and "0 \<le> round_nearest (of_int y * q)"
    and "round_nearest (of_int y * q) \<le> of_int y"
proof -
  have "(of_int y :: rat) < of_int (2 ^ 53)" using assms(2) by (simp only: of_int_less_iff)
  then have ylt: "(of_int y :: rat) < 2 ^ 53" by simp
  define x :: rat where "x = of_int y * q"
  have x: "0 \<le> x" "x \<le> of_int y"
    using assms by (simp_all add: x_def mult_left_le)
  have le: "round_nearest x \<le> of_int y"
  proof (cases "x = 0")
    case True
    then show ?thesis using assms(1) by simp
  next
    case False
    with x have "0 < x" by simp
    moreover have "x < 2 ^ 53" using x(2) ylt by linarith
    ultimately show ?thesis using x(2) by (intro round_nearest_le_int)
  qed
  have ge: "0 \<le> round_nearest x" using x(1) by (rule round_nearest_nonneg)
  have "\<bar>round_nearest x\<bar> < 2 ^ 53" using le ge ylt by linarith
  also have "(2::rat) ^ 53 < 2 ^ 1024" by simp
  finally have fin: "round_to_double x = Finite (round_nearest x)"
    by (rule round_to_double_finite)
  have fy: "float_of_int y = Inr (Finite (of_int y))"
    using assms(1,2) by (intro float_of_int_exact) simp
  have prod: "float_mul (Finite (of_int y)) (Finite q) = Finite (round_nearest x)"
    unfolding float_mul.simps x_def [symmetric] by (rule fin)
  have "int_of_float (Finite (round_nearest x)) = Inr \<lfloor>round_nearest x\<rfloor>"
    using ge by (simp add: int_of_float_def)
  then have "int_times_float y (Finite q) = Inr \<lfloor>round_nearest x\<rfloor>"
    by (simp only: int_times_float_def fy and_then_Inr prod)
  then show "int_times_float y (Finite q) = Inr \<lfloor>round_nearest (of_int y * q)\<rfloor>"
    by (simp only: x_def)
  show "0 \<le> round_nearest (of_int y * q)" using ge by (simp only: x_def)
  show "round_nearest (of_int y * q) \<le> of_int y" using le by (simp only: x_def)
qed

lemma int_times_float_strict:
  assumes "0 < y" "y < 2 ^ 53" "0 \<le> q" "q \<le> 1 - 1 / 2 ^ 53"
  shows "\<exists>k. int_times_float y (Finite q) = Inr k \<and> 0 \<le> k \<and> k < y"
proof -
  have q1: "q \<le> 1" using assms(4) by (rule order_trans) simp
  have y0: "0 \<le> y" using assms(1) by simp
  note v = int_times_float_value [OF y0 assms(2,3) q1]
  have "\<lfloor>round_nearest (of_int y * q)\<rfloor> < y"
    using round_nearest_strictly_below [OF assms] by (simp add: floor_less_iff)
  moreover have "0 \<le> \<lfloor>round_nearest (of_int y * q)\<rfloor>" using v(2) by simp
  ultimately show ?thesis using v(1) by blast
qed

lemma true_div_factor_strict:
  assumes "0 < a" "a < c" "c \<le> 2 ^ 53"
  shows "\<exists>q. true_div a c = Inr (Finite q) \<and> 0 \<le> q \<and> q \<le> 1 - 1 / 2 ^ 53"
proof -
  define x :: rat where "x = of_int a / of_int c"
  have cpos: "0 < (of_int c :: rat)" using assms(1,2) by simp
  have "(of_int c :: rat) \<le> of_int (2 ^ 53)" using assms(3) by (simp only: of_int_le_iff)
  then have c53: "(of_int c :: rat) \<le> 2 ^ 53" by simp
  have "a \<le> c - 1" using assms(2) by simp
  then have "(of_int a :: rat) \<le> of_int (c - 1)" by (simp only: of_int_le_iff)
  then have "x \<le> (of_int c - 1) / of_int c"
    using cpos by (simp add: x_def divide_right_mono)
  also have "\<dots> = 1 - 1 / of_int c" using cpos by (simp add: diff_divide_distrib)
  also have "\<dots> \<le> 1 - 1 / 2 ^ 53"
    using cpos c53 by (simp add: frac_le)
  finally have xle: "x \<le> 1 - 1 / 2 ^ 53" .
  have dy: "of_int (2 ^ 53 - 1) * 2 powi (- 53) = (1 - 1 / 2 ^ 53 :: rat)"
    by (simp add: power_int_minus_divide)
  have xpos: "0 < x" using assms(1) cpos by (simp add: x_def)
  have "x < 1" using xle by (rule le_less_trans) simp
  then have x1: "x < 2 powi (- 53 + 53)" by simp
  have "x \<le> of_int (2 ^ 53 - 1) * 2 powi (- 53)" using xle by (simp only: dy)
  from round_nearest_le_dyadic [OF xpos this x1]
  have le: "round_nearest x \<le> 1 - 1 / 2 ^ 53" by (simp only: dy)
  have ge: "0 \<le> round_nearest x" using xpos by (intro round_nearest_nonneg) simp
  have "\<bar>round_nearest x\<bar> \<le> 1" using le ge by simp
  moreover have "(1::rat) < 2 ^ 1024" by simp
  ultimately have "\<bar>round_nearest x\<bar> < 2 ^ 1024" by (rule le_less_trans)
  then have fin: "round_to_double x = Finite (round_nearest x)" by (rule round_to_double_finite)
  have "c \<noteq> 0" using assms by simp
  then have "true_div a c = Inr (Finite (round_nearest x))"
    by (simp only: true_div_def if_False x_def [symmetric] fin pyfloat.case)
  with le ge show ?thesis by blast
qed

lemma scaled_load_strict:
  assumes "20 < y" "y < 2 ^ 53" "0 \<le> q" "q \<le> 1 - 1 / 2 ^ 53"
  shows "\<exists>z. scaled_load (Finite q) y = Inr z \<and> z < y"
proof -
  from assms int_times_float_strict [of y q] obtain k
    where "int_times_float y (Finite q) = Inr k" "k < y" by auto
  with assms(1) show ?thesis by (simp add: scaled_load_def)
qed

section \<open>The scaling loop on the store\<close>

lemma scale_session_Inr:
  "scale_session f note s = Inr s' \<longleftrightarrow>
     (\<exists>l t. scaled_load f (load_units s) = Inr l \<and> iadd_str (notes s) note = Inr t
        \<and> s' = s\<lparr>load_units := l, notes := t\<rparr>)"
  by (auto simp: scale_session_def and_then_eq_Inr)

lemma scale_session_identity: "scale_session f note s = Inr s' \<Longrightarrow> same_identity s' s"
  by (auto simp: scale_session_Inr same_identity_def)

lemma scaled_load_ge_20: "scaled_load f l = Inr z \<Longrightarrow> 20 \<le> z"
  by (auto simp: scaled_load_def and_then_eq_Inr)

lemma scale_sessions_length:
  "scale_sessions h rs f note = Inr h' \<Longrightarrow> length h' = length h"
proof (induction rs arbitrary: h)
  case Nil
  then show ?case by simp
next
  case (Cons r rs)
  from Cons.prems obtain s' where
    step: "scale_sessions (h[r := s']) rs f note = Inr h'"
    by (auto simp: and_then_eq_Inr)
  from Cons.IH [OF step] show ?case by simp
qed

lemma scale_sessions_identity:
  "scale_sessions h rs f note = Inr h' \<Longrightarrow> i < length h \<Longrightarrow> same_identity (h' ! i) (h ! i)"
proof (induction rs arbitrary: h)
  case Nil
  then show ?case by (simp add: same_identity_def)
next
  case (Cons r rs)
  from Cons.prems(1) obtain s' where
    s': "scale_session f note (h ! r) = Inr s'"
    and step: "scale_sessions (h[r := s']) rs f note = Inr h'"
    by (auto simp: and_then_eq_Inr)
  have "same_identity (h' ! i) (h[r := s'] ! i)"
    using Cons.IH [OF step] Cons.prems(2) by simp
  moreover have "same_identity (h[r := s'] ! i) (h ! i)"
    using Cons.prems(2) scale_session_identity [OF s']
    by (cases "i = r") (simp_all add: same_identity_def)
  ultimately show ?case by (simp add: same_identity_def)
qed

text \<open>
  A record is rescaled once for every occurrence of its reference in the list: this is
  where a record that the list holds twice differs from two equal records.
\<close>

lemma scale_sessions_count:
  "scale_sessions h rs f note = Inr h' \<Longrightarrow> r < length h \<Longrightarrow>
     repeat_scale (count_list rs r) f note (h ! r) = Inr (h' ! r)"
proof (induction rs arbitrary: h)
  case Nil
  then show ?case by simp
next
  case (Cons r0 rs)
  from Cons.prems(1) obtain s' where
    s': "scale_session f note (h ! r0) = Inr s'"
    and step: "scale_sessions (h[r0 := s']) rs f note = Inr h'"
    by (auto simp: and_then_eq_Inr)
  have ih: "repeat_scale (count_list rs r) f note (h[r0 := s'] ! r) = Inr (h' ! r)"
    using Cons.IH [OF step] Cons.prems(2) by simp
  show ?case
  proof (cases "r0 = r")
    case True
    with ih s' Cons.prems(2) show ?thesis by simp
  next
    case False
    with ih show ?thesis by simp
  qed
qed

lemma scale_sessions_once:
  assumes "scale_sessions h rs f note = Inr h'" "distinct rs" "r \<in> set rs" "r < length h"
  shows "scale_session f note (h ! r) = Inr (h' ! r)"
proof -
  from assms(2,3) have "count_list rs r = 1"
    by (induction rs) auto
  with scale_sessions_count [OF assms(1,4)] show ?thesis
    by (cases "scale_session f note (h ! r)") simp_all
qed

lemma guardrail_unfold:
  "apply_weekly_load_guardrail (h, rs) lw =
     (if lw \<le> 0 then Inr (h, rs)
      else and_then (allowed_max_of lw) (\<lambda>a.
             if current_total_of (h, rs) \<le> a
             then (case rs of
                     [] \<Rightarrow> Inl IndexError
                   | r # rest \<Rightarrow>
                       and_then
                         (iadd_str (notes (h ! r)) (load_check_note (current_total_of (h, rs)) lw))
                         (\<lambda>t. Inr (h[r := (h ! r)\<lparr>notes := t\<rparr>], rs)))
             else
               and_then (true_div a (current_total_of (h, rs))) (\<lambda>factor.
               and_then (scale_sessions h rs factor (guardrail_note lw a))
                 (\<lambda>h'. Inr (h', rs)))))"
  by (simp add: apply_weekly_load_guardrail_def Let_def cong: if_cong list.case_cong)

lemma guardrail_scaling_branch:
  assumes "0 < lw" "allowed_max_of lw = Inr a" "a < current_total_of (h, rs)"
    and "apply_weekly_load_guardrail (h, rs) lw = Inr (h', rs')"
  shows "rs' = rs \<and> (\<exists>f. true_div a (current_total_of (h, rs)) = Inr f
           \<and> scale_sessions h rs f (guardrail_note lw a) = Inr h')"
  using assms by (auto simp: guardrail_unfold and_then_eq_Inr)

lemma sum_list_map_mono_strict:
  fixes f g :: "'a \<Rightarrow> int"
  assumes "\<forall>x\<in>set xs. f x \<le> g x" "\<exists>x\<in>set xs. f x < g x"
  shows "sum_list (map f xs) < sum_list (map g xs)"
  using assms
proof (induction xs)
  case Nil
  then show ?case by simp
next
  case (Cons x xs)
  have le: "sum_list (map f xs) \<le> sum_list (map g xs)"
    using Cons.prems(1) by (intro sum_list_mono) simp
  show ?case
  proof (cases "f x < g x")
    case True
    with le show ?thesis by simp
  next
    case False
    with Cons.prems have "f x = g x" "\<exists>y\<in>set xs. f y < g y" by auto
    with Cons.IH Cons.prems(1) show ?thesis by simp
  qed
qed

section \<open>The boxing catalog and its selector\<close>

lemma novice_templates_fields:
  "map day (novice_templates c) = [''Tue'', ''Thu'', ''Sat'']"
  "map load_units (novice_templates c) = [30, 35, 40]"
  by (simp_all add: novice_templates_def)

lemma intermediate_templates_fields:
  "map day (intermediate_templates c) = [''Mon'', ''Wed'', ''Fri'']"
  "map load_units (intermediate_templates c) = [55, 50, 60]"
  by (simp_all add: intermediate_templates_def)

lemma advanced_templates_fields:
  "map day (advanced_templates c) = [''Tue'', ''Thu'', ''Sat'']"
  "map load_units (advanced_templates c) = [70, 70, 65]"
  by (simp_all add: advanced_templates_def)

lemma day_key_values:
  "day_key ''Mon'' = 0" "day_key ''Tue'' = 1" "day_key ''Wed'' = 2" "day_key ''Thu'' = 3"
  "day_key ''Fri'' = 4" "day_key ''Sat'' = 5" "day_key ''Sun'' = 6"
  by (simp_all add: day_key_def DAYS_ORDER_def)

lemma boxing_templates_days:
  "map day (boxing_templates l c) = [''Tue'', ''Thu'', ''Sat'']
   \<or> map day (boxing_templates l c) = [''Mon'', ''Wed'', ''Fri'']"
  by (simp add: boxing_templates_def novice_templates_fields intermediate_templates_fields
      advanced_templates_fields)

lemma boxing_templates_length: "length (boxing_templates l c) = 3"
  using boxing_templates_days [of l c] by (metis length_map length_Cons list.size(3) numeral_3_eq_3)

lemma boxing_templates_keys:
  "day_key (day (boxing_templates l c ! 0)) < day_key (day (boxing_templates l c ! 1))"
  "day_key (day (boxing_templates l c ! 1)) < day_key (day (boxing_templates l c ! 2))"
proof -
  have len: "length (boxing_templates l c) = 3" by (rule boxing_templates_length)
  have nth: "day (boxing_templates l c ! i) = map day (boxing_templates l c) ! i" if "i < 3" for i
    using that len by simp
  from boxing_templates_days [of l c]
  show "day_key (day (boxing_templates l c ! 0)) < day_key (day (boxing_templates l c ! 1))"
    and "day_key (day (boxing_templates l c ! 1)) < day_key (day (boxing_templates l c ! 2))"
    by (auto simp: nth day_key_values)
qed

lemma pad_with_first_eq:
  "pad_with_first s n = s @ replicate (nat (n - int (length s))) 0"
proof (induction s n rule: pad_with_first.induct)
  case (1 sessions n)
  show ?case
  proof (cases "int (length sessions) < n")
    case True
    then have "nat (n - int (length sessions)) = Suc (nat (n - int (length (sessions @ [0]))))"
      by simp
    with True "1.IH" show ?thesis
      by (subst pad_with_first.simps) (simp add: replicate_app_Cons_same)
  next
    case False
    then show ?thesis by (subst pad_with_first.simps) simp
  qed
qed

lemma insort_key_past:
  "\<forall>y\<in>set xs. f y < f x \<Longrightarrow> insort_key f x (xs @ ys) = xs @ insort_key f x ys"
  by (induction xs) auto

lemma sort_key_padded:
  fixes f :: "nat \<Rightarrow> nat"
  assumes "f 0 < f 1" "f 1 < f 2"
  shows "sort_key f ([0, 1, 2] @ replicate m 0) = replicate (Suc m) 0 @ [1, 2]"
proof -
  have s0: "sort_key f (replicate m 0) = replicate m 0"
    by (rule sort_key_id_if_sorted) (simp add: sorted_replicate)
  have "insort_key f 2 (replicate m 0 @ []) = replicate m 0 @ insort_key f 2 []"
    using assms by (intro insort_key_past) auto
  then have s2: "insort_key f 2 (replicate m 0) = replicate m 0 @ [2]" by simp
  have s1: "insort_key f 1 (replicate m 0 @ [2]) = replicate m 0 @ [1, 2]"
    using assms by (subst insort_key_past) auto
  have s3: "insort_key f 0 (replicate m 0 @ [1, 2]) = 0 # replicate m 0 @ [1, 2]"
    using assms by (intro insort_is_Cons) auto
  have "sort_key f ([0, 1, 2] @ replicate m 0)
      = insort_key f 0 (insort_key f 1 (insort_key f 2 (sort_key f (replicate m 0))))"
    by (simp only: append_Cons append_Nil sort_key_simps)
  also have "\<dots> = 0 # replicate m 0 @ [1, 2]"
    by (simp only: s0 s2 s1 s3)
  also have "\<dots> = replicate (Suc m) 0 @ [1, 2]"
    by (simp only: replicate_Suc append_Cons)
  finally show ?thesis .
qed

lemma upt_3: "[0..<3] = [0, 1, 2]"
  by (simp add: upt_rec)

lemma boxing_plan_padded:
  assumes "3 < n"
  shows "generate_boxing_sessions_template level n c =
           (boxing_templates (str_lower level) c, replicate (nat n - 2) 0 @ [1, 2])"
proof -
  let ?T = "boxing_templates (str_lower level) c"
  have len: "length ?T = 3" by (rule boxing_templates_length)
  have gen: "generate_boxing_sessions_template level n c
      = (?T, sort_by_day ?T (pad_with_first [0, 1, 2] n))"
    using assms
    by (simp only: generate_boxing_sessions_template_def Let_def len upt_3) simp
  have "int (length [0::nat, 1, 2]) = 3" by simp
  then have pad: "pad_with_first [0, 1, 2] n = [0, 1, 2] @ replicate (nat (n - 3)) 0"
    by (simp only: pad_with_first_eq)
  have sorted: "sort_by_day ?T ([0, 1, 2] @ replicate (nat (n - 3)) 0)
          = replicate (Suc (nat (n - 3))) 0 @ [1, 2]"
    unfolding sort_by_day_def using boxing_templates_keys [of "str_lower level" c]
    by (intro sort_key_padded) simp_all
  have suc: "Suc (nat (n - 3)) = nat n - 2" using assms by simp
  show ?thesis by (simp only: gen pad sorted suc)
qed



section \<open>The sanitizer of the AI path\<close>

lemma index_of_Some: "index_of x xs = Some i \<Longrightarrow> i < length xs \<and> xs ! i = x"
proof (induction xs arbitrary: i)
  case Nil
  then show ?case by simp
next
  case (Cons y ys)
  then show ?case by (cases "x = y") auto
qed

lemma index_of_None: "index_of x xs = None \<longleftrightarrow> x \<notin> set xs"
  by (induction xs) auto

lemma length_DAYS_ORDER [simp]: "length DAYS_ORDER = 7"
  by (simp add: DAYS_ORDER_def)

lemma distinct_DAYS_ORDER: "distinct DAYS_ORDER"
  by (simp add: DAYS_ORDER_def)

lemma card_DAYS_ORDER: "card (set DAYS_ORDER) = 7"
  using distinct_card [OF distinct_DAYS_ORDER] by simp

lemma candidate_days_nth:
  "k < 7 \<Longrightarrow> candidate_days b ! k = DAYS_ORDER ! ((b + k) mod 7)"
  by (simp add: candidate_days_def)

lemma length_candidate_days [simp]: "length (candidate_days b) = 7"
  by (simp add: candidate_days_def)

lemma candidate_days_rotate: "candidate_days b = rotate b DAYS_ORDER"
  by (rule nth_equalityI) (simp_all add: candidate_days_def nth_rotate)

lemma set_candidate_days: "set (candidate_days b) = set DAYS_ORDER"
  by (simp only: candidate_days_rotate set_rotate)

text \<open>
  While a day of the week is still free, the scan returns the first free day met from the
  session's own day forward around the week, and records it as used.
\<close>

lemma resolve_day_first_free:
  assumes "resolve_day d used = Inr (d', used')" "\<not> set DAYS_ORDER \<subseteq> used"
  shows "\<exists>b k. index_of d DAYS_ORDER = Some b \<and> k < 7
           \<and> d' = DAYS_ORDER ! ((b + k) mod 7) \<and> d' \<notin> used
           \<and> (\<forall>j<k. DAYS_ORDER ! ((b + j) mod 7) \<in> used)
           \<and> used' = insert d' used"
proof -
  from assms(1) obtain b where b: "index_of d DAYS_ORDER = Some b"
    by (auto simp: resolve_day_def split: option.splits)
  from assms(2) have "\<exists>x\<in>set (candidate_days b). x \<notin> used"
    by (auto simp: set_candidate_days)
  then have "find (\<lambda>x. x \<notin> used) (candidate_days b) \<noteq> None"
    by (auto simp: find_None_iff)
  then obtain x where x: "find (\<lambda>x. x \<notin> used) (candidate_days b) = Some x" by auto
  with assms(1) b have res: "d' = x" "used' = insert x used"
    by (auto simp: resolve_day_def)
  from x obtain k where k: "k < 7" "candidate_days b ! k \<notin> used" "x = candidate_days b ! k"
    "\<forall>j<k. candidate_days b ! j \<in> used"
    by (auto simp: find_Some_iff)
  have before: "\<forall>j<k. DAYS_ORDER ! ((b + j) mod 7) \<in> used"
  proof (intro allI impI)
    fix j assume jk: "j < k"
    with k(1) have j7: "j < 7" by simp
    from k(4) jk have "candidate_days b ! j \<in> used" by simp
    then show "DAYS_ORDER ! ((b + j) mod 7) \<in> used"
      by (simp only: candidate_days_nth [OF j7])
  qed
  have dk: "d' = DAYS_ORDER ! ((b + k) mod 7)"
    using res(1) k(3) by (simp only: candidate_days_nth [OF k(1)])
  have fresh: "d' \<notin> used" using k(2,3) res(1) by simp
  have ins: "used' = insert d' used" using res by simp
  from b k(1) dk fresh before ins show ?thesis by blast
qed

lemma resolve_day_in_week:
  assumes "resolve_day d used = Inr (d', used')"
  shows "d' \<in> set DAYS_ORDER"
proof -
  from assms obtain b where b: "index_of d DAYS_ORDER = Some b"
    by (auto simp: resolve_day_def split: option.splits)
  then have d: "d \<in> set DAYS_ORDER" using index_of_Some [OF b] by (metis nth_mem)
  show ?thesis
  proof (cases "find (\<lambda>x. x \<notin> used) (candidate_days b)")
    case None
    with assms b d show ?thesis by (simp add: resolve_day_def)
  next
    case (Some x)
    then have "x \<in> set (candidate_days b)" by (auto simp: find_Some_iff)
    with assms b Some show ?thesis by (simp add: resolve_day_def set_candidate_days)
  qed
qed

lemma default_day_in_week: "default_day x \<in> set DAYS_ORDER"
  by (cases x) (auto simp: default_day_def DAYS_ORDER_def)

lemma dict_get_Inr:
  "dict_get x key d = Inr v \<longleftrightarrow>
     (\<exists>kvs. x = PDict kvs \<and> v = (case map_of kvs key of Some w \<Rightarrow> w | None \<Rightarrow> d))"
  by (cases x) (auto simp: dict_get_def)

lemma sanitize_item_Inr:
  assumes "sanitize_item parse sport c item used = Inr (s, used')"
  shows "\<exists>kvs titled coerced.
      item = PDict kvs
      \<and> resolve_day (default_day (case map_of kvs ''day'' of Some w \<Rightarrow> w | None \<Rightarrow> PStr ''Mon''))
            used = Inr (day s, used')
      \<and> focus s = (case map_of kvs ''focus'' of Some w \<Rightarrow> w | None \<Rightarrow> PStr (sport @ '' session''))
      \<and> py_title (case map_of kvs ''intensity'' of Some w \<Rightarrow> w | None \<Rightarrow> PStr ''Moderate'')
            = Inr titled
      \<and> intensity s = normalize_intensity titled
      \<and> py_int parse (case map_of kvs ''duration_min'' of Some w \<Rightarrow> w | None \<Rightarrow> PInt 30)
            = Inr coerced
      \<and> duration_min s = clamp_duration coerced
      \<and> load_units s = intensity_factor (intensity s) * duration_min s
      \<and> iadd_str (case map_of kvs ''notes'' of Some w \<Rightarrow> w | None \<Rightarrow> PStr [])
            (safety_postscript c) = Inr (notes s)"
  using assms
  by (auto simp: sanitize_item_def and_then_eq_Inr dict_get_Inr split: prod.splits)

lemma sanitize_item_day:
  assumes "sanitize_item parse sport c item used = Inr (s, used')"
  shows "day s \<in> set DAYS_ORDER"
    and "\<not> set DAYS_ORDER \<subseteq> used \<Longrightarrow> day s \<notin> used \<and> used' = insert (day s) used"
proof -
  from sanitize_item_Inr [OF assms] obtain x where
    r: "resolve_day (default_day x) used = Inr (day s, used')" by blast
  show "day s \<in> set DAYS_ORDER" using r by (rule resolve_day_in_week)
  show "day s \<notin> used \<and> used' = insert (day s) used" if "\<not> set DAYS_ORDER \<subseteq> used"
    using resolve_day_first_free [OF r that] by auto
qed

lemma sanitize_items_distinct:
  assumes "sanitize_items parse sport c n items sessions used = Inr out"
    and "n \<le> 7" "distinct (map day sessions)" "used = set (map day sessions)"
    and "used \<subseteq> set DAYS_ORDER"
  shows "distinct (map day out)"
  using assms
proof (induction items arbitrary: sessions used)
  case Nil
  then show ?case by simp
next
  case (Cons item items)
  show ?case
  proof (cases "n \<le> int (length sessions)")
    case True
    with Cons.prems show ?thesis by simp
  next
    case False
    with Cons.prems(1) obtain s used' where
      item: "sanitize_item parse sport c item used = Inr (s, used')"
      and rest: "sanitize_items parse sport c n items (sessions @ [s]) used' = Inr out"
      by (auto simp: and_then_eq_Inr)
    have "card used = length sessions"
      using Cons.prems(3,4) distinct_card [of "map day sessions"] by simp
    with False Cons.prems(2) have "card used < card (set DAYS_ORDER)"
      by (simp add: card_DAYS_ORDER)
    then have free: "\<not> set DAYS_ORDER \<subseteq> used"
      by (meson List.finite_set card_mono finite_subset not_less Cons.prems(5) subset_antisym)
    from sanitize_item_day [OF item] free
    have fresh: "day s \<notin> used" "used' = insert (day s) used" "day s \<in> set DAYS_ORDER"
      by simp_all
    show ?thesis
    proof (rule Cons.IH [OF rest Cons.prems(2)])
      show "distinct (map day (sessions @ [s]))"
        using fresh(1) Cons.prems(3,4) by simp
      show "used' = set (map day (sessions @ [s]))"
        using fresh(2) Cons.prems(4) by simp
      show "used' \<subseteq> set DAYS_ORDER"
        using fresh(2,3) Cons.prems(5) by simp
    qed
  qed
qed

lemma sanitize_items_each:
  assumes "sanitize_items parse sport c n items sessions used = Inr out"
    and "list_all P sessions"
    and "\<And>item u s u'. sanitize_item parse sport c item u = Inr (s, u') \<Longrightarrow> P s"
  shows "list_all P out"
  using assms(1,2)
proof (induction items arbitrary: sessions used)
  case Nil
  then show ?case by simp
next
  case (Cons item items)
  show ?case
  proof (cases "n \<le> int (length sessions)")
    case True
    with Cons.prems show ?thesis by simp
  next
    case False
    with Cons.prems(1) obtain s used' where
      item: "sanitize_item parse sport c item used = Inr (s, used')"
      and rest: "sanitize_items parse sport c n items (sessions @ [s]) used' = Inr out"
      by (auto simp: and_then_eq_Inr)
    from assms(3) [OF item] Cons.prems(2) have "list_all P (sessions @ [s])" by simp
    from Cons.IH [OF rest this] show ?thesis .
  qed
qed

lemma sanitize_items_length:
  assumes "sanitize_items parse sport c n items sessions used = Inr out"
    and "int (length sessions) \<le> max n 0"
  shows "int (length out) \<le> max n 0"
  using assms
proof (induction items arbitrary: sessions used)
  case Nil
  then show ?case by simp
next
  case (Cons item items)
  show ?case
  proof (cases "n \<le> int (length sessions)")
    case True
    with Cons.prems show ?thesis by simp
  next
    case False
    with Cons.prems(1) obtain s used' where
      rest: "sanitize_items parse sport c n items (sessions @ [s]) used' = Inr out"
      by (auto simp: and_then_eq_Inr)
    from False have "int (length (sessions @ [s])) \<le> max n 0" by simp
    from Cons.IH [OF rest this] show ?thesis .
  qed
qed

lemma ai_pipeline_Some:
  assumes "ai_pipeline ext sport level n lw c = Inr (Some p)"
  shows "\<exists>items sessions.
      sanitize_items (int_of_text ext) sport c n items [] {} = Inr sessions
      \<and> sessions \<noteq> [] \<and> p = (sessions, sort_by_day sessions [0..<length sessions])"
  using assms
  by (auto simp: ai_pipeline_def and_then_eq_Inr split: if_splits)

lemma generate_sessions_ai_Some:
  assumes "generate_sessions_ai ext sport level n lw c = Inr (Some p)"
  shows "ai_pipeline ext sport level n lw c = Inr (Some p)"
  using assms
  by (cases "ai_pipeline ext sport level n lw c")
     (auto simp: generate_sessions_ai_def try_except_def split: if_splits)

lemma map_insort_key:
  "map g (insort_key (\<lambda>x. f (g x)) x xs) = insort_key f (g x) (map g xs)"
  by (induction xs) auto

lemma map_sort_key: "map g (sort_key (\<lambda>x. f (g x)) xs) = sort_key f (map g xs)"
  by (induction xs) (simp_all add: map_insort_key)

lemma sessions_of_sort_by_day:
  "sessions_of (h, sort_by_day h rs) = sort_key (\<lambda>s. day_key (day s)) (sessions_of (h, rs))"
  using map_sort_key [of "\<lambda>r. h ! r" "\<lambda>s. day_key (day s)" rs]
  by (simp add: sessions_of_def sort_by_day_def)

lemma sessions_of_sorted:
  "sessions_of (xs, sort_by_day xs [0..<length xs]) = sort_key (\<lambda>s. day_key (day s)) xs"
  by (simp add: sessions_of_sort_by_day) (simp add: sessions_of_def map_nth)

section \<open>The guardrail: what a reader of the list sees\<close>

lemma sessions_of_nth: "j < length rs \<Longrightarrow> sessions_of (h, rs) ! j = h ! (rs ! j)"
  by (simp add: sessions_of_def)

lemma length_sessions_of [simp]: "length (sessions_of p) = length (snd p)"
  by (simp add: sessions_of_def)

lemma refs_ok_nth: "refs_ok (h, rs) \<Longrightarrow> j < length rs \<Longrightarrow> rs ! j < length h"
  by (simp add: refs_ok_def list_all_length)

lemma current_total_of_sessions:
  "current_total_of p = sum_list (map load_units (sessions_of p))"
  by (simp add: current_total_of_def sessions_of_def o_def)

lemma guardrail_under_threshold:
  assumes "0 < lw" "allowed_max_of lw = Inr a" "current_total_of (h, rs) \<le> a"
    and "apply_weekly_load_guardrail (h, rs) lw = Inr (h', rs')"
  obtains r rest t where "rs = r # rest"
    and "iadd_str (notes (h ! r)) (load_check_note (current_total_of (h, rs)) lw) = Inr t"
    and "h' = h[r := (h ! r)\<lparr>notes := t\<rparr>]" and "rs' = rs"
  using assms
  by (auto simp: guardrail_unfold and_then_eq_Inr split: list.splits)

lemma guardrail_same_refs:
  assumes "apply_weekly_load_guardrail (h, rs) lw = Inr (h', rs')"
  shows "rs' = rs \<and> length h' = length h \<and> (\<forall>i<length h. same_identity (h' ! i) (h ! i))"
proof (cases "lw \<le> 0")
  case True
  with assms show ?thesis by (simp add: guardrail_unfold same_identity_def)
next
  case False
  with assms obtain a where a: "allowed_max_of lw = Inr a"
    by (auto simp: guardrail_unfold and_then_eq_Inr)
  show ?thesis
  proof (cases "current_total_of (h, rs) \<le> a")
    case True
    from False have "0 < lw" by simp
    from guardrail_under_threshold [OF this a True assms] obtain r rest t where
      h': "h' = h[r := (h ! r)\<lparr>notes := t\<rparr>]" and rs': "rs' = rs" by metis
    have "same_identity (h' ! i) (h ! i)" if "i < length h" for i
      using that h' by (cases "i = r") (simp_all add: same_identity_def)
    with h' rs' show ?thesis by simp
  next
    case gt: False
    from False gt a assms have "rs' = rs \<and> (\<exists>f. scale_sessions h rs f (guardrail_note lw a) = Inr h')"
      using guardrail_scaling_branch [of lw a h rs h' rs'] by auto
    then show ?thesis
      using scale_sessions_length scale_sessions_identity by blast
  qed
qed

text \<open>
  Claim C5, as the code has it. Whenever the guardrail returns, the list holds the same
  references in the same order, and at every position the day, focus, intensity and
  duration are unchanged. With a prior load of 0 or less the store is unchanged. With a
  positive prior load and a total within the allowed maximum: the list is not empty, the
  load at every position is unchanged, the load-check text is appended once to the notes
  of the record at position 0, every position holding another record is unchanged, and
  a position holding the same record as position 0 shows that record's new notes; when no
  record occurs twice, every position but the first is unchanged. The allowed maximum
  is computed with truncation: for a prior load below \<open>2 ^ 46\<close> it is the larger of
  \<open>11 * prior div 10\<close> and \<open>prior + 20\<close>.
\<close>

theorem guardrail_frame:
  assumes "refs_ok (h, rs)"
    and "apply_weekly_load_guardrail (h, rs) lw = Inr (h', rs')"
  shows "rs' = rs
    \<and> length (sessions_of (h', rs')) = length (sessions_of (h, rs))
    \<and> (\<forall>j<length rs. same_identity (sessions_of (h', rs') ! j) (sessions_of (h, rs) ! j))
    \<and> (lw \<le> 0 \<longrightarrow> sessions_of (h', rs') = sessions_of (h, rs) \<and> h' = h)
    \<and> (\<forall>a. 0 < lw \<and> allowed_max_of lw = Inr a \<and> current_total_of (h, rs) \<le> a \<longrightarrow>
          rs \<noteq> []
          \<and> (\<forall>j<length rs. load_units (sessions_of (h', rs') ! j)
                              = load_units (sessions_of (h, rs) ! j))
          \<and> iadd_str (notes (sessions_of (h, rs) ! 0))
               (load_check_note (current_total_of (h, rs)) lw)
               = Inr (notes (sessions_of (h', rs') ! 0))
          \<and> (\<forall>j<length rs. rs ! j \<noteq> rs ! 0 \<longrightarrow>
                 sessions_of (h', rs') ! j = sessions_of (h, rs) ! j)
          \<and> (\<forall>j<length rs. rs ! j = rs ! 0 \<longrightarrow>
                 sessions_of (h', rs') ! j = sessions_of (h', rs') ! 0)
          \<and> (distinct rs \<longrightarrow>
                (\<forall>j<length rs. 0 < j \<longrightarrow>
                   sessions_of (h', rs') ! j = sessions_of (h, rs) ! j)))
    \<and> (0 < lw \<and> lw < 2 ^ 46 \<longrightarrow>
          allowed_max_of lw = Inr (max (11 * lw div 10) (lw + 20)))"
proof -
  from guardrail_same_refs [OF assms(2)]
  have rs': "rs' = rs" and len: "length h' = length h"
    and ident: "\<And>i. i < length h \<Longrightarrow> same_identity (h' ! i) (h ! i)"
    by simp_all
  have pos: "rs ! j < length h" if "j < length rs" for j
    using assms(1) that by (rule refs_ok_nth)
  have c1: "length (sessions_of (h', rs')) = length (sessions_of (h, rs))"
    by (simp add: rs')
  have c2: "\<forall>j<length rs. same_identity (sessions_of (h', rs') ! j) (sessions_of (h, rs) ! j)"
    using ident pos by (simp add: rs' sessions_of_nth)
  have c3: "lw \<le> 0 \<longrightarrow> sessions_of (h', rs') = sessions_of (h, rs) \<and> h' = h"
    using assms(2) by (auto simp: guardrail_unfold)
  have c4: "rs \<noteq> []
          \<and> (\<forall>j<length rs. load_units (sessions_of (h', rs') ! j)
                              = load_units (sessions_of (h, rs) ! j))
          \<and> iadd_str (notes (sessions_of (h, rs) ! 0))
               (load_check_note (current_total_of (h, rs)) lw)
               = Inr (notes (sessions_of (h', rs') ! 0))
          \<and> (\<forall>j<length rs. rs ! j \<noteq> rs ! 0 \<longrightarrow>
                 sessions_of (h', rs') ! j = sessions_of (h, rs) ! j)
          \<and> (\<forall>j<length rs. rs ! j = rs ! 0 \<longrightarrow>
                 sessions_of (h', rs') ! j = sessions_of (h', rs') ! 0)
          \<and> (distinct rs \<longrightarrow>
                (\<forall>j<length rs. 0 < j \<longrightarrow>
                   sessions_of (h', rs') ! j = sessions_of (h, rs) ! j))"
    if a: "0 < lw" "allowed_max_of lw = Inr a" "current_total_of (h, rs) \<le> a" for a
  proof -
    from guardrail_under_threshold [OF a assms(2)] obtain r rest t where
      rs: "rs = r # rest"
      and t: "iadd_str (notes (h ! r)) (load_check_note (current_total_of (h, rs)) lw) = Inr t"
      and h': "h' = h[r := (h ! r)\<lparr>notes := t\<rparr>]" by metis
    have r0: "rs ! 0 = r" "0 < length rs" by (simp_all add: rs)
    have ne: "rs \<noteq> []" by (simp add: rs)
    have rlen: "r < length h" using pos [of 0] r0 by simp
    have new_at: "sessions_of (h', rs') ! j = (h ! r)\<lparr>notes := t\<rparr>"
      if "j < length rs" "rs ! j = r" for j
      using that rlen by (simp add: rs' sessions_of_nth h')
    have old_at: "sessions_of (h', rs') ! j = sessions_of (h, rs) ! j"
      if "j < length rs" "rs ! j \<noteq> r" for j
      using that by (simp add: rs' sessions_of_nth h')
    have old: "sessions_of (h, rs) ! j = h ! (rs ! j)" if "j < length rs" for j
      using that by (rule sessions_of_nth)
    have k1: "\<forall>j<length rs. load_units (sessions_of (h', rs') ! j)
                              = load_units (sessions_of (h, rs) ! j)"
    proof (intro allI impI)
      fix j assume j: "j < length rs"
      show "load_units (sessions_of (h', rs') ! j) = load_units (sessions_of (h, rs) ! j)"
      proof (cases "rs ! j = r")
        case True
        with j show ?thesis by (simp add: new_at old)
      next
        case False
        with j show ?thesis by (simp add: old_at)
      qed
    qed
    have k2: "iadd_str (notes (sessions_of (h, rs) ! 0))
               (load_check_note (current_total_of (h, rs)) lw)
               = Inr (notes (sessions_of (h', rs') ! 0))"
      using t r0 by (simp add: new_at old)
    have k3: "\<forall>j<length rs. rs ! j \<noteq> rs ! 0 \<longrightarrow>
                 sessions_of (h', rs') ! j = sessions_of (h, rs) ! j"
      using r0(1) old_at by simp
    have k4: "\<forall>j<length rs. rs ! j = rs ! 0 \<longrightarrow>
                 sessions_of (h', rs') ! j = sessions_of (h', rs') ! 0"
      using r0 new_at by simp
    have k5: "distinct rs \<longrightarrow> (\<forall>j<length rs. 0 < j \<longrightarrow>
                   sessions_of (h', rs') ! j = sessions_of (h, rs) ! j)"
    proof (intro allI impI)
      fix j assume d: "distinct rs" and j: "j < length rs" "0 < j"
      from d j r0(2) have "rs ! j \<noteq> rs ! 0"
        by (simp add: nth_eq_iff_index_eq)
      with j(1) r0(1) show "sessions_of (h', rs') ! j = sessions_of (h, rs) ! j"
        by (simp add: old_at)
    qed
    from ne k1 k2 k3 k4 k5 show ?thesis by (intro conjI)
  qed
  have c4': "\<forall>a. 0 < lw \<and> allowed_max_of lw = Inr a \<and> current_total_of (h, rs) \<le> a \<longrightarrow>
          rs \<noteq> []
          \<and> (\<forall>j<length rs. load_units (sessions_of (h', rs') ! j)
                              = load_units (sessions_of (h, rs) ! j))
          \<and> iadd_str (notes (sessions_of (h, rs) ! 0))
               (load_check_note (current_total_of (h, rs)) lw)
               = Inr (notes (sessions_of (h', rs') ! 0))
          \<and> (\<forall>j<length rs. rs ! j \<noteq> rs ! 0 \<longrightarrow>
                 sessions_of (h', rs') ! j = sessions_of (h, rs) ! j)
          \<and> (\<forall>j<length rs. rs ! j = rs ! 0 \<longrightarrow>
                 sessions_of (h', rs') ! j = sessions_of (h', rs') ! 0)
          \<and> (distinct rs \<longrightarrow>
                (\<forall>j<length rs. 0 < j \<longrightarrow>
                   sessions_of (h', rs') ! j = sessions_of (h, rs) ! j))"
  proof (intro allI impI)
    fix a assume "0 < lw \<and> allowed_max_of lw = Inr a \<and> current_total_of (h, rs) \<le> a"
    then have "0 < lw" "allowed_max_of lw = Inr a" "current_total_of (h, rs) \<le> a"
      by simp_all
    then show "rs \<noteq> []
          \<and> (\<forall>j<length rs. load_units (sessions_of (h', rs') ! j)
                              = load_units (sessions_of (h, rs) ! j))
          \<and> iadd_str (notes (sessions_of (h, rs) ! 0))
               (load_check_note (current_total_of (h, rs)) lw)
               = Inr (notes (sessions_of (h', rs') ! 0))
          \<and> (\<forall>j<length rs. rs ! j \<noteq> rs ! 0 \<longrightarrow>
                 sessions_of (h', rs') ! j = sessions_of (h, rs) ! j)
          \<and> (\<forall>j<length rs. rs ! j = rs ! 0 \<longrightarrow>
                 sessions_of (h', rs') ! j = sessions_of (h', rs') ! 0)
          \<and> (distinct rs \<longrightarrow>
                (\<forall>j<length rs. 0 < j \<longrightarrow>
                   sessions_of (h', rs') ! j = sessions_of (h, rs) ! j))"
      by (rule c4)
  qed
  have c5: "0 < lw \<and> lw < 2 ^ 46 \<longrightarrow>
          allowed_max_of lw = Inr (max (11 * lw div 10) (lw + 20))"
  proof
    assume "0 < lw \<and> lw < 2 ^ 46"
    then have "0 < lw" "lw < 2 ^ 46" by simp_all
    then show "allowed_max_of lw = Inr (max (11 * lw div 10) (lw + 20))"
      by (rule allowed_max_of_floor)
  qed
  from rs' c1 c2 c3 c4' c5 show ?thesis by (intro conjI)
qed

theorem guardrail_frame_witness:
  "refs_ok ([sample_session ''Tue'' 40, sample_session ''Mon'' 50], [1, 0])
   \<and> apply_weekly_load_guardrail
        ([sample_session ''Tue'' 40, sample_session ''Mon'' 50], [1, 0]) 100
     = Inr ([sample_session ''Tue'' 40,
             (sample_session ''Mon'' 50)\<lparr>notes := PStr (load_check_note 90 100)\<rparr>], [1, 0])
   \<and> allowed_max_of 100 = Inr 120
   \<and> current_total_of ([sample_session ''Tue'' 40, sample_session ''Mon'' 50], [1, 0]) \<le> 120
   \<and> distinct [1, 0 :: nat]
   \<and> sessions_of ([sample_session ''Tue'' 40,
             (sample_session ''Mon'' 50)\<lparr>notes := PStr (load_check_note 90 100)\<rparr>], [1, 0]) ! 1
       = sessions_of ([sample_session ''Tue'' 40, sample_session ''Mon'' 50], [1, 0]) ! 1
   \<and> apply_weekly_load_guardrail ([sample_session ''Tue'' 40], [0]) 0
     = Inr ([sample_session ''Tue'' 40], [0])"
proof -
  let ?h = "[sample_session ''Tue'' 40, sample_session ''Mon'' 50]"
  let ?h' = "[sample_session ''Tue'' 40,
             (sample_session ''Mon'' 50)\<lparr>notes := PStr (load_check_note 90 100)\<rparr>]"
  have ok: "refs_ok (?h, [1, 0])"
    by (simp add: refs_ok_def)
  have run: "apply_weekly_load_guardrail (?h, [1, 0]) 100 = Inr (?h', [1, 0])"
    by code_simp
  have am: "allowed_max_of 100 = Inr 120"
    by (simp add: allowed_max_of_floor)
  have ct: "current_total_of (?h, [1, 0]) \<le> 120"
    by (simp add: current_total_of_def sample_session_def)
  have noop: "apply_weekly_load_guardrail ([sample_session ''Tue'' 40], [0]) 0
     = Inr ([sample_session ''Tue'' 40], [0])"
    by (simp add: apply_weekly_load_guardrail_def)
  have d: "distinct [1, 0 :: nat]" by simp
  note frame = guardrail_frame [OF ok run]
  from frame have "\<forall>a. 0 < (100::int) \<and> allowed_max_of 100 = Inr a
        \<and> current_total_of (?h, [1, 0]) \<le> a \<longrightarrow>
      (distinct [1, 0 :: nat] \<longrightarrow> (\<forall>j<length [1, 0 :: nat]. 0 < j \<longrightarrow>
          sessions_of (?h', [1, 0]) ! j = sessions_of (?h, [1, 0]) ! j))"
    by blast
  with am ct d have "sessions_of (?h', [1, 0]) ! 1 = sessions_of (?h, [1, 0]) ! 1"
    by simp
  with ok run am ct d noop show ?thesis by (intro conjI)
qed

text \<open>
  The claim as stated fails where a record occurs twice: in the padded boxing plan for
  four sessions the first two positions hold the same record, and after the guardrail has
  run under the threshold (total 135, allowed maximum 220) the notes at both positions
  have changed.
\<close>

theorem first_note_shared_counterexample:
  "result_notes_changed (generate_boxing_sessions_template ''Novice'' 4 [])
     (apply_weekly_load_guardrail (generate_boxing_sessions_template ''Novice'' 4 []) 200)
     = Inr [True, True, False, False]
   \<and> allowed_max_of 200 = Inr 220
   \<and> current_total_of (generate_boxing_sessions_template ''Novice'' 4 []) = 135"
proof -
  have "result_notes_changed (generate_boxing_sessions_template ''Novice'' 4 [])
     (apply_weekly_load_guardrail (generate_boxing_sessions_template ''Novice'' 4 []) 200)
     = Inr [True, True, False, False]"
    by code_simp
  moreover have "allowed_max_of 200 = Inr 220"
    by (simp add: allowed_max_of_floor)
  moreover have "current_total_of (generate_boxing_sessions_template ''Novice'' 4 []) = 135"
    by code_simp
  ultimately show ?thesis by (intro conjI)
qed

section \<open>The scaling branch\<close>

lemma allowed_max_of_pos:
  assumes "0 < lw" "allowed_max_of lw = Inr a"
  shows "lw + 20 \<le> a"
  using assms by (auto simp: allowed_max_of_def and_then_eq_Inr)

lemma elem_le_sum_list:
  fixes f :: "'a \<Rightarrow> int"
  assumes "\<forall>x\<in>set xs. 0 \<le> f x" "x \<in> set xs"
  shows "f x \<le> sum_list (map f xs)"
  using assms
proof (induction xs)
  case Nil
  then show ?case by simp
next
  case (Cons y ys)
  have nn: "0 \<le> sum_list (map f ys)"
    using Cons.prems(1) by (intro sum_list_nonneg) auto
  show ?case
  proof (cases "x = y")
    case True
    with nn show ?thesis by simp
  next
    case False
    with Cons have "f x \<le> sum_list (map f ys)" by simp
    moreover have "0 \<le> f y" using Cons.prems(1) by simp
    ultimately show ?thesis by simp
  qed
qed

lemma scaled_load_Inr:
  "scaled_load f l = Inr z \<longleftrightarrow> (\<exists>k. int_times_float l f = Inr k \<and> z = max 20 k)"
  by (auto simp: scaled_load_def and_then_eq_Inr)

text \<open>
  Claim C1, as the code has it. In the scaling branch, on a list in which no record
  occurs twice: the list is returned with the same references; with \<open>f\<close> the binary64
  quotient \<open>allowed_max / current_total\<close>, the load at every position becomes
  \<open>max 20 k\<close> where \<open>k\<close> is the binary64 product of the old load and \<open>f\<close> truncated by
  \<^verbatim>\<open>int()\<close>, and the guardrail text is appended to the notes at every position. Every new
  load is at least 20. The allowed maximum is computed by truncation. When every old
  load is at least 20 and the total is below \<open>2 ^ 53\<close>, the new total is at most the old
  total, and smaller as soon as one old load exceeds 20.
\<close>

theorem guardrail_scaling:
  assumes "refs_ok (h, rs)" "distinct rs"
    and "0 < lw" "allowed_max_of lw = Inr a" "a < current_total_of (h, rs)"
    and "apply_weekly_load_guardrail (h, rs) lw = Inr (h', rs')"
  shows "rs' = rs
    \<and> (\<exists>f. true_div a (current_total_of (h, rs)) = Inr f
          \<and> (\<forall>j<length rs.
                (\<exists>k. int_times_float (load_units (sessions_of (h, rs) ! j)) f = Inr k
                      \<and> load_units (sessions_of (h', rs') ! j) = max 20 k)
                \<and> iadd_str (notes (sessions_of (h, rs) ! j)) (guardrail_note lw a)
                     = Inr (notes (sessions_of (h', rs') ! j))))
    \<and> (\<forall>j<length rs. 20 \<le> load_units (sessions_of (h', rs') ! j))
    \<and> (lw < 2 ^ 46 \<longrightarrow> a = max (11 * lw div 10) (lw + 20))
    \<and> ((\<forall>j<length rs. 20 \<le> load_units (sessions_of (h, rs) ! j))
          \<and> current_total_of (h, rs) < 2 ^ 53 \<longrightarrow>
        current_total_of (h', rs') \<le> current_total_of (h, rs)
        \<and> ((\<exists>j<length rs. 20 < load_units (sessions_of (h, rs) ! j)) \<longrightarrow>
             current_total_of (h', rs') < current_total_of (h, rs)))"
proof -
  let ?note = "guardrail_note lw a"
  let ?ct = "current_total_of (h, rs)"
  from guardrail_scaling_branch [OF assms(3,4,5,6)] obtain f where
    rs': "rs' = rs" and f: "true_div a ?ct = Inr f"
    and loop: "scale_sessions h rs f ?note = Inr h'" by blast
  have pos: "rs ! j < length h" if "j < length rs" for j
    using assms(1) that by (rule refs_ok_nth)
  have once: "scale_session f ?note (h ! (rs ! j)) = Inr (h' ! (rs ! j))" if "j < length rs" for j
    using loop assms(2) nth_mem [OF that] pos [OF that] by (rule scale_sessions_once)
  have old: "sessions_of (h, rs) ! j = h ! (rs ! j)" if "j < length rs" for j
    using that by (rule sessions_of_nth)
  have new: "sessions_of (h', rs') ! j = h' ! (rs ! j)" if "j < length rs" for j
    using that by (simp add: rs' sessions_of_nth)
  have step: "scaled_load f (load_units (sessions_of (h, rs) ! j))
                = Inr (load_units (sessions_of (h', rs') ! j))
              \<and> iadd_str (notes (sessions_of (h, rs) ! j)) ?note
                  = Inr (notes (sessions_of (h', rs') ! j))"
    if "j < length rs" for j
    using once [OF that] by (auto simp: scale_session_Inr old [OF that] new [OF that])
  have p2: "\<forall>j<length rs.
                (\<exists>k. int_times_float (load_units (sessions_of (h, rs) ! j)) f = Inr k
                      \<and> load_units (sessions_of (h', rs') ! j) = max 20 k)
                \<and> iadd_str (notes (sessions_of (h, rs) ! j)) ?note
                     = Inr (notes (sessions_of (h', rs') ! j))"
    using step by (simp add: scaled_load_Inr)
  have p3: "\<forall>j<length rs. 20 \<le> load_units (sessions_of (h', rs') ! j)"
    using step scaled_load_ge_20 by blast
  have p4: "lw < 2 ^ 46 \<longrightarrow> a = max (11 * lw div 10) (lw + 20)"
  proof
    assume "lw < 2 ^ 46"
    with assms(3) have "allowed_max_of lw = Inr (max (11 * lw div 10) (lw + 20))"
      by (rule allowed_max_of_floor)
    with assms(4) show "a = max (11 * lw div 10) (lw + 20)" by simp
  qed
  have p5: "current_total_of (h', rs') \<le> ?ct
        \<and> ((\<exists>j<length rs. 20 < load_units (sessions_of (h, rs) ! j)) \<longrightarrow>
             current_total_of (h', rs') < ?ct)"
    if big: "\<forall>j<length rs. 20 \<le> load_units (sessions_of (h, rs) ! j)" and ct: "?ct < 2 ^ 53"
  proof -
    have apos: "0 < a" using allowed_max_of_pos [OF assms(3,4)] assms(3) by simp
    from true_div_factor_strict [OF apos assms(5)] ct f obtain q where
      q: "f = Finite q" "0 \<le> q" "q \<le> 1 - 1 / 2 ^ 53" by auto
    have q1: "q \<le> 1" using q(3) by (rule order_trans) simp
    have old20: "20 \<le> load_units (h ! r)" if "r \<in> set rs" for r
      using that big by (auto simp: in_set_conv_nth old)
    have "\<forall>r\<in>set rs. 0 \<le> load_units (h ! r)"
      using old20 by force
    then have le_ct: "load_units (h ! r) \<le> ?ct" if "r \<in> set rs" for r
      unfolding current_total_of_def fst_conv snd_conv using that by (rule elem_le_sum_list)
    have new_r: "scaled_load (Finite q) (load_units (h ! r)) = Inr (load_units (h' ! r))"
      if "r \<in> set rs" for r
      using that step by (auto simp: in_set_conv_nth old new q(1))
    have le: "load_units (h' ! r) \<le> load_units (h ! r)" if "r \<in> set rs" for r
    proof -
      have "\<bar>load_units (h ! r)\<bar> < 2 ^ 53"
        using old20 [OF that] le_ct [OF that] ct by simp
      from scaled_load_bounds [OF this q(2) q1] new_r [OF that] old20 [OF that]
      show ?thesis by auto
    qed
    have lt: "load_units (h' ! r) < load_units (h ! r)"
      if "r \<in> set rs" "20 < load_units (h ! r)" for r
    proof -
      have "load_units (h ! r) < 2 ^ 53"
        using le_ct [OF that(1)] ct by simp
      from scaled_load_strict [OF that(2) this q(2,3)] new_r [OF that(1)]
      show ?thesis by auto
    qed
    have tot: "current_total_of (h', rs') = sum_list (map (\<lambda>r. load_units (h' ! r)) rs)"
      "?ct = sum_list (map (\<lambda>r. load_units (h ! r)) rs)"
      by (simp_all add: current_total_of_def rs')
    have "current_total_of (h', rs') \<le> ?ct"
      unfolding tot using le by (intro sum_list_mono) simp
    moreover have "current_total_of (h', rs') < ?ct"
      if "\<exists>j<length rs. 20 < load_units (sessions_of (h, rs) ! j)"
    proof -
      from that obtain j where j: "j < length rs" "20 < load_units (h ! (rs ! j))"
        by (auto simp: old)
      then have "\<exists>r\<in>set rs. load_units (h' ! r) < load_units (h ! r)"
        using lt [of "rs ! j"] by auto
      moreover have "\<forall>r\<in>set rs. load_units (h' ! r) \<le> load_units (h ! r)"
        using le by simp
      ultimately show ?thesis unfolding tot by (intro sum_list_map_mono_strict)
    qed
    ultimately show ?thesis by simp
  qed
  have p5': "(\<forall>j<length rs. 20 \<le> load_units (sessions_of (h, rs) ! j))
          \<and> ?ct < 2 ^ 53 \<longrightarrow>
        current_total_of (h', rs') \<le> ?ct
        \<and> ((\<exists>j<length rs. 20 < load_units (sessions_of (h, rs) ! j)) \<longrightarrow>
             current_total_of (h', rs') < ?ct)"
  proof
    assume "(\<forall>j<length rs. 20 \<le> load_units (sessions_of (h, rs) ! j)) \<and> ?ct < 2 ^ 53"
    then have "\<forall>j<length rs. 20 \<le> load_units (sessions_of (h, rs) ! j)" "?ct < 2 ^ 53"
      by simp_all
    then show "current_total_of (h', rs') \<le> ?ct
        \<and> ((\<exists>j<length rs. 20 < load_units (sessions_of (h, rs) ! j)) \<longrightarrow>
             current_total_of (h', rs') < ?ct)"
      by (rule p5)
  qed
  from f p2 have p2': "\<exists>f. true_div a ?ct = Inr f
          \<and> (\<forall>j<length rs.
                (\<exists>k. int_times_float (load_units (sessions_of (h, rs) ! j)) f = Inr k
                      \<and> load_units (sessions_of (h', rs') ! j) = max 20 k)
                \<and> iadd_str (notes (sessions_of (h, rs) ! j)) ?note
                     = Inr (notes (sessions_of (h', rs') ! j)))"
    by (intro exI [of _ f] conjI)
  from rs' p2' p3 p4 p5' show ?thesis by (intro conjI)
qed

theorem guardrail_scaling_witness:
  "refs_ok ([sample_session ''Mon'' 30, sample_session ''Wed'' 35, sample_session ''Fri'' 40],
            [0, 1, 2])
   \<and> distinct [0, 1, 2 :: nat]
   \<and> allowed_max_of 50 = Inr 70
   \<and> 70 < current_total_of
        ([sample_session ''Mon'' 30, sample_session ''Wed'' 35, sample_session ''Fri'' 40],
         [0, 1, 2])
   \<and> apply_weekly_load_guardrail
        ([sample_session ''Mon'' 30, sample_session ''Wed'' 35, sample_session ''Fri'' 40],
         [0, 1, 2]) 50
      = Inr ([(sample_session ''Mon'' 30)
                \<lparr>load_units := 20, notes := PStr (guardrail_note 50 70)\<rparr>,
              (sample_session ''Wed'' 35)
                \<lparr>load_units := 23, notes := PStr (guardrail_note 50 70)\<rparr>,
              (sample_session ''Fri'' 40)
                \<lparr>load_units := 26, notes := PStr (guardrail_note 50 70)\<rparr>], [0, 1, 2])
   \<and> current_total_of
        ([(sample_session ''Mon'' 30)
            \<lparr>load_units := 20, notes := PStr (guardrail_note 50 70)\<rparr>,
          (sample_session ''Wed'' 35)
            \<lparr>load_units := 23, notes := PStr (guardrail_note 50 70)\<rparr>,
          (sample_session ''Fri'' 40)
            \<lparr>load_units := 26, notes := PStr (guardrail_note 50 70)\<rparr>], [0, 1, 2])
       < current_total_of
        ([sample_session ''Mon'' 30, sample_session ''Wed'' 35, sample_session ''Fri'' 40],
         [0, 1, 2])"
proof -
  let ?h = "[sample_session ''Mon'' 30, sample_session ''Wed'' 35, sample_session ''Fri'' 40]"
  let ?h' = "[(sample_session ''Mon'' 30)
                \<lparr>load_units := 20, notes := PStr (guardrail_note 50 70)\<rparr>,
              (sample_session ''Wed'' 35)
                \<lparr>load_units := 23, notes := PStr (guardrail_note 50 70)\<rparr>,
              (sample_session ''Fri'' 40)
                \<lparr>load_units := 26, notes := PStr (guardrail_note 50 70)\<rparr>]"
  have ok: "refs_ok (?h, [0, 1, 2])" by (simp add: refs_ok_def)
  have d: "distinct [0, 1, 2 :: nat]" by simp
  have lw: "0 < (50 :: int)" by simp
  have am: "allowed_max_of 50 = Inr 70" by (simp add: allowed_max_of_floor)
  have ct: "current_total_of (?h, [0, 1, 2]) = 105"
    by (simp add: current_total_of_def sample_session_def)
  have gt: "70 < current_total_of (?h, [0, 1, 2])" unfolding ct by simp
  have run: "apply_weekly_load_guardrail (?h, [0, 1, 2]) 50 = Inr (?h', [0, 1, 2])"
    by code_simp
  note th = guardrail_scaling [OF ok d lw am gt run]
  note sums = th [THEN conjunct2, THEN conjunct2, THEN conjunct2, THEN conjunct2]
  have big: "\<forall>j<length [0, 1, 2 :: nat]. 20 \<le> load_units (sessions_of (?h, [0, 1, 2]) ! j)"
    by (auto simp: sessions_of_def sample_session_def less_Suc_eq numeral_3_eq_3)
  have small: "current_total_of (?h, [0, 1, 2]) < 2 ^ 53" unfolding ct by simp
  have one: "\<exists>j<length [0, 1, 2 :: nat]. 20 < load_units (sessions_of (?h, [0, 1, 2]) ! j)"
    by (intro exI [of _ 0]) (simp add: sessions_of_def sample_session_def)
  from sums big small one
  have less: "current_total_of (?h', [0, 1, 2]) < current_total_of (?h, [0, 1, 2])"
    by blast
  from ok d am gt run less show ?thesis by (intro conjI)
qed

text \<open>
  The claim as stated fails on the code. The products are truncated, not rounded: the
  boxing novice plan with a prior load of 50 gets the loads 20, 23 and 26, not 27. The
  clamp at 20 can raise the total: three loads of 10 with a prior load of 1 (allowed
  maximum 21, total 30) become three loads of 20. The allowed maximum is truncated as
  well: a prior load of 205 gives 225, where rounding 225.5 would give 226.
\<close>

theorem guardrail_rounding_counterexample:
  "result_loads
     (apply_weekly_load_guardrail (generate_boxing_sessions_template ''Novice'' 3 []) 50)
     = Inr [20, 23, 26]
   \<and> result_loads
       (apply_weekly_load_guardrail (generate_boxing_sessions_template ''Novice'' 3 []) 50)
     \<noteq> Inr [20, 23, 27]
   \<and> result_loads
       (apply_weekly_load_guardrail
          ([sample_session ''Mon'' 10, sample_session ''Wed'' 10, sample_session ''Fri'' 10],
           [0, 1, 2]) 1)
     = Inr [20, 20, 20]
   \<and> allowed_max_of 205 = Inr 225"
proof -
  have a: "result_loads
     (apply_weekly_load_guardrail (generate_boxing_sessions_template ''Novice'' 3 []) 50)
     = Inr [20, 23, 26]"
    by code_simp
  then have b: "result_loads
       (apply_weekly_load_guardrail (generate_boxing_sessions_template ''Novice'' 3 []) 50)
     \<noteq> Inr [20, 23, 27]"
    by simp
  have c: "result_loads
       (apply_weekly_load_guardrail
          ([sample_session ''Mon'' 10, sample_session ''Wed'' 10, sample_session ''Fri'' 10],
           [0, 1, 2]) 1)
     = Inr [20, 20, 20]"
    by code_simp
  have d: "allowed_max_of 205 = Inr 225"
    by (simp add: allowed_max_of_floor)
  from a b c d show ?thesis by (intro conjI)
qed

section \<open>When the guardrail returns\<close>

lemma scale_sessions_returns:
  assumes "list_all (\<lambda>r. r < length h) rs" "list_all P h"
    and "\<And>s. P s \<Longrightarrow> \<exists>s'. scale_session f note s = Inr s' \<and> P s'"
  shows "\<exists>h'. scale_sessions h rs f note = Inr h'"
  using assms(1,2)
proof (induction rs arbitrary: h)
  case Nil
  then show ?case by simp
next
  case (Cons r rs)
  from Cons.prems have r: "r < length h" and rest: "list_all (\<lambda>i. i < length h) rs"
    by simp_all
  from Cons.prems(2) r have "P (h ! r)" by (simp add: list_all_length)
  from assms(3) [OF this] obtain s' where
    s': "scale_session f note (h ! r) = Inr s'" "P s'" by blast
  have "list_all (\<lambda>i. i < length (h[r := s'])) rs" using rest by simp
  moreover have "list_all P (h[r := s'])"
    unfolding list_all_length
  proof (intro allI impI)
    fix n assume "n < length (h[r := s'])"
    then have n: "n < length h" by simp
    show "P (h[r := s'] ! n)"
    proof (cases "n = r")
      case True
      with n s'(2) show ?thesis by simp
    next
      case False
      with Cons.prems(2) n show ?thesis by (simp add: list_all_length)
    qed
  qed
  ultimately obtain h' where "scale_sessions (h[r := s']) rs f note = Inr h'"
    using Cons.IH by blast
  with s'(1) show ?case by simp
qed

lemma scale_session_returns:
  assumes "notes_appendable s" "\<bar>load_units s\<bar> < 2 ^ 53" "0 \<le> q" "q \<le> 1"
  shows "\<exists>s'. scale_session (Finite q) note s = Inr s'
            \<and> notes_appendable s' \<and> \<bar>load_units s'\<bar> < 2 ^ 53"
proof -
  from scaled_load_bounds [OF assms(2,3,4)] obtain z where
    z: "scaled_load (Finite q) (load_units s) = Inr z" "20 \<le> z" "z \<le> max 20 (load_units s)"
    by blast
  from assms(1) obtain t where
    t: "iadd_str (notes s) note = Inr t" "case t of PStr u \<Rightarrow> True | PList xs \<Rightarrow> True | _ \<Rightarrow> False"
    by (cases "notes s") (auto simp: notes_appendable_def iadd_str_def)
  have "\<bar>z\<bar> < 2 ^ 53" using z(2,3) assms(2) by auto
  with z(1) t show ?thesis
    by (simp add: scale_session_def notes_appendable_def)
qed

text \<open>
  On a list that is not empty, whose records have notes that can be appended to and
  loads below \<open>2 ^ 53\<close> in magnitude, and for a prior load below \<open>2 ^ 46\<close>, the guardrail
  returns.
\<close>

lemma guardrail_returns:
  assumes "refs_ok (h, rs)" "rs \<noteq> []"
    and "list_all (\<lambda>s. notes_appendable s \<and> \<bar>load_units s\<bar> < 2 ^ 53) h"
    and "lw < 2 ^ 46"
  shows "\<exists>p'. apply_weekly_load_guardrail (h, rs) lw = Inr p'"
proof (cases "lw \<le> 0")
  case True
  then show ?thesis by (simp add: guardrail_unfold)
next
  case False
  then have lw: "0 < lw" by simp
  define a where "a = max (11 * lw div 10) (lw + 20)"
  have am: "allowed_max_of lw = Inr a"
    unfolding a_def using lw assms(4) by (rule allowed_max_of_floor)
  show ?thesis
  proof (cases "current_total_of (h, rs) \<le> a")
    case True
    from assms(2) obtain r rest where rs: "rs = r # rest" by (cases rs) auto
    with assms(1) have "r < length h" by (simp add: refs_ok_def)
    with assms(3) have "notes_appendable (h ! r)" by (simp add: list_all_length)
    then obtain t where
      "iadd_str (notes (h ! r)) (load_check_note (current_total_of (h, rs)) lw) = Inr t"
      by (cases "notes (h ! r)") (auto simp: notes_appendable_def iadd_str_def)
    with lw am True rs show ?thesis by (simp add: guardrail_unfold)
  next
    case gt: False
    have apos: "0 < a" using allowed_max_of_pos [OF lw am] lw by simp
    from gt have "a < current_total_of (h, rs)" by simp
    from true_div_factor [OF apos this] obtain q where
      q: "true_div a (current_total_of (h, rs)) = Inr (Finite q)" "0 \<le> q" "q \<le> 1" by blast
    have "\<exists>h'. scale_sessions h rs (Finite q) (guardrail_note lw a) = Inr h'"
    proof (rule scale_sessions_returns)
      show "list_all (\<lambda>r. r < length h) rs" using assms(1) by (simp add: refs_ok_def)
      show "list_all (\<lambda>s. notes_appendable s \<and> \<bar>load_units s\<bar> < 2 ^ 53) h" by (rule assms(3))
      show "\<exists>s'. scale_session (Finite q) (guardrail_note lw a) s = Inr s'
               \<and> (notes_appendable s' \<and> \<bar>load_units s'\<bar> < 2 ^ 53)"
        if "notes_appendable s \<and> \<bar>load_units s\<bar> < 2 ^ 53" for s
        using that scale_session_returns [OF _ _ q(2,3)] by blast
    qed
    then obtain h' where "scale_sessions h rs (Finite q) (guardrail_note lw a) = Inr h'" ..
    with lw am gt q(1) show ?thesis by (simp add: guardrail_unfold)
  qed
qed

text \<open>
  Claim C9 fails on the code: on the empty list with a positive prior load the total 0
  is within the allowed maximum, and \<^verbatim>\<open>sessions[0]\<close> raises IndexError. The orchestrator
  reaches this with a request for 0 sessions.
\<close>

theorem guardrail_raises_on_empty_list:
  "apply_weekly_load_guardrail ([], []) 1 = Inl IndexError
   \<and> generate_week_plan no_service ''Running'' ''Novice'' 0 1 [] = Inl IndexError"
proof -
  have am: "allowed_max_of 1 = Inr 21" by (simp add: allowed_max_of_floor)
  have a: "apply_weekly_load_guardrail ([], []) 1 = Inl IndexError"
    by (simp add: guardrail_unfold am current_total_of_def)
  have "generate_week_plan no_service ''Running'' ''Novice'' 0 1 []
      = apply_weekly_load_guardrail ([], []) 1"
    by code_simp
  with a show ?thesis by simp
qed

section \<open>The padded boxing plan under the guardrail\<close>









section \<open>The selector: padding, truncation and order\<close>

lemma sessions_of_padded:
  "sessions_of (T, replicate k 0 @ [1, 2]) = replicate k (T ! 0) @ [T ! 1, T ! 2]"
  by (simp add: sessions_of_def)


lemma pad_with_first_catalog:
  assumes "3 < n"
  shows "pad_with_first [0..<3] n = [0, 1, 2] @ replicate (nat n - 3) 0"
proof -
  have "int (length [0::nat, 1, 2]) = 3" by simp
  then have "pad_with_first [0, 1, 2] n = [0, 1, 2] @ replicate (nat (n - 3)) 0"
    by (simp only: pad_with_first_eq)
  moreover have "nat (n - 3) = nat n - 3" by simp
  ultimately show ?thesis by (simp only: upt_3)
qed

text \<open>
  Claim C6. For every level and every requested count above 3 the boxing selector
  returns a list of exactly that many entries. The padding loop appends the reference to
  catalog entry 0 until the length reaches the count, so before the final sort the
  entries at index 3 and beyond are catalog entry 0 itself. The stable sort by day then
  moves them next to entry 0: the returned list is count - 2 occurrences of catalog
  entry 0 followed by catalog entries 1 and 2.
\<close>

theorem boxing_padding:
  assumes "3 < n"
  shows "fst (generate_boxing_sessions_template level n c)
           = boxing_templates (str_lower level) c
       \<and> length (boxing_templates (str_lower level) c) = 3
       \<and> pad_with_first [0..<3] n = [0, 1, 2] @ replicate (nat n - 3) 0
       \<and> snd (generate_boxing_sessions_template level n c)
           = sort_by_day (boxing_templates (str_lower level) c) (pad_with_first [0..<3] n)
       \<and> snd (generate_boxing_sessions_template level n c) = replicate (nat n - 2) 0 @ [1, 2]
       \<and> length (sessions_of (generate_boxing_sessions_template level n c)) = nat n
       \<and> sessions_of (generate_boxing_sessions_template level n c)
           = replicate (nat n - 2) (boxing_templates (str_lower level) c ! 0)
             @ [boxing_templates (str_lower level) c ! 1,
                boxing_templates (str_lower level) c ! 2]"
proof -
  let ?T = "boxing_templates (str_lower level) c"
  let ?P = "generate_boxing_sessions_template level n c"
  have gen: "?P = (?T, replicate (nat n - 2) 0 @ [1, 2])"
    using assms by (rule boxing_plan_padded)
  have len: "length ?T = 3" by (rule boxing_templates_length)
  have pad: "pad_with_first [0..<3] n = [0, 1, 2] @ replicate (nat n - 3) 0"
    using assms by (rule pad_with_first_catalog)
  have p1: "fst ?P = ?T" by (simp only: gen fst_conv)
  have p5: "snd ?P = replicate (nat n - 2) 0 @ [1, 2]" by (simp only: gen snd_conv)
  have "snd ?P = sort_by_day ?T (pad_with_first [0..<length ?T] n)"
    using assms by (simp add: generate_boxing_sessions_template_def Let_def len)
  then have p4: "snd ?P = sort_by_day ?T (pad_with_first [0..<3] n)"
    by (simp only: len)
  have p7: "sessions_of ?P = replicate (nat n - 2) (?T ! 0) @ [?T ! 1, ?T ! 2]"
    by (simp only: gen sessions_of_padded)
  have "length (sessions_of ?P) = nat n - 2 + 2" by (simp only: p7) simp
  with assms have p6: "length (sessions_of ?P) = nat n" by simp
  from p1 len pad p4 p5 p6 p7 show ?thesis by (intro conjI)
qed

theorem boxing_padding_witness:
  "(3::int) < 5
   \<and> length (sessions_of (generate_boxing_sessions_template ''Novice'' 5 [])) = 5
   \<and> pad_with_first [0..<3] 5 = [0, 1, 2, 0, 0]
   \<and> snd (generate_boxing_sessions_template ''Novice'' 5 []) = [0, 0, 0, 1, 2]
   \<and> sessions_of (generate_boxing_sessions_template ''Novice'' 5 [])
       = [novice_templates [] ! 0, novice_templates [] ! 0, novice_templates [] ! 0,
          novice_templates [] ! 1, novice_templates [] ! 2]"
proof -
  have n: "(3::int) < 5" by simp
  have T: "boxing_templates (str_lower ''Novice'') [] = novice_templates []"
    by code_simp
  have k3: "replicate (nat 5 - 2) x = [x, x, x]" for x :: 'a
    by (simp add: numeral_3_eq_3)
  have k2: "replicate (nat 5 - 3) x = [x, x]" for x :: 'a
    by (simp add: numeral_2_eq_2)
  note b = boxing_padding [OF n, of "''Novice''" "[]"]
  from b have p1: "length (sessions_of (generate_boxing_sessions_template ''Novice'' 5 [])) = 5"
    by simp
  from b have "pad_with_first [0..<3] 5 = [0, 1, 2] @ replicate (nat 5 - 3) 0" by blast
  then have p2: "pad_with_first [0..<3] 5 = [0, 1, 2, 0, 0]"
    by (simp only: k2 append_Cons append_Nil)
  from b have "snd (generate_boxing_sessions_template ''Novice'' 5 [])
      = replicate (nat 5 - 2) 0 @ [1, 2]" by blast
  then have p3: "snd (generate_boxing_sessions_template ''Novice'' 5 []) = [0, 0, 0, 1, 2]"
    by (simp only: k3 append_Cons append_Nil)
  from b have "sessions_of (generate_boxing_sessions_template ''Novice'' 5 [])
       = replicate (nat 5 - 2) (boxing_templates (str_lower ''Novice'') [] ! 0)
             @ [boxing_templates (str_lower ''Novice'') [] ! 1,
                boxing_templates (str_lower ''Novice'') [] ! 2]" by blast
  then have p4: "sessions_of (generate_boxing_sessions_template ''Novice'' 5 [])
       = [novice_templates [] ! 0, novice_templates [] ! 0, novice_templates [] ! 0,
          novice_templates [] ! 1, novice_templates [] ! 2]"
    by (simp only: k3 T append_Cons append_Nil)
  from n p1 p2 p3 p4 show ?thesis by (intro conjI)
qed

text \<open>
  The claim as stated fails on the returned list: for the novice level and five sessions
  the days are Tue, Tue, Tue, Thu, Sat, and the entries at indices 3 and 4 are catalog
  entries 1 and 2, which differ from catalog entry 0 in day and focus.
\<close>

theorem boxing_padding_counterexample:
  "result_days (Inr (generate_boxing_sessions_template ''Novice'' 5 []))
     = Inr [''Tue'', ''Tue'', ''Tue'', ''Thu'', ''Sat'']
   \<and> same_identity (sessions_of (generate_boxing_sessions_template ''Novice'' 5 []) ! 3)
        (novice_templates [] ! 0) = False
   \<and> same_identity (sessions_of (generate_boxing_sessions_template ''Novice'' 5 []) ! 4)
        (novice_templates [] ! 0) = False
   \<and> same_identity (sessions_of (generate_boxing_sessions_template ''Novice'' 5 []) ! 3)
        (novice_templates [] ! 1) = True
   \<and> same_identity (sessions_of (generate_boxing_sessions_template ''Novice'' 5 []) ! 4)
        (novice_templates [] ! 2) = True"
proof -
  let ?S = "sessions_of (generate_boxing_sessions_template ''Novice'' 5 [])"
  have p1: "result_days (Inr (generate_boxing_sessions_template ''Novice'' 5 []))
     = Inr [''Tue'', ''Tue'', ''Tue'', ''Thu'', ''Sat'']"
    by code_simp
  have p2: "same_identity (?S ! 3) (novice_templates [] ! 0) = False" by code_simp
  have p3: "same_identity (?S ! 4) (novice_templates [] ! 0) = False" by code_simp
  have p4: "same_identity (?S ! 3) (novice_templates [] ! 1) = True" by code_simp
  have p5: "same_identity (?S ! 4) (novice_templates [] ! 2) = True" by code_simp
  from p1 p2 p3 p4 p5 show ?thesis by (intro conjI)
qed




lemma generic_plan_days:
  "map day (sessions_of (generate_generic_sessions_template sport level n c))
     = map (\<lambda>i. DAYS_ORDER ! ((i * 2) mod 7)) [0..<nat n]"
  by (simp add: generate_generic_sessions_template_def Let_def sessions_of_def
      generic_session_def length_DAYS_ORDER map_nth cong: map_cong)

text \<open>
  Claim C8. The generic generator gives session \<open>i\<close> the day \<open>i * 2 mod 7\<close> and returns
  the sessions in the order of \<open>i\<close>; neither it nor the orchestrator sorts them. For the
  sport Running, five sessions, no prior load and no text service the returned days are
  Mon, Wed, Fri, Sun, Tue: Sun (index 6) comes before Tue (index 1), so the list is not
  in day order. The boxing selector on the same request returns a list that is.
\<close>

theorem generic_plan_not_sorted:
  "result_days (generate_week_plan no_service ''Running'' ''Novice'' 5 0 [])
     = Inr [''Mon'', ''Wed'', ''Fri'', ''Sun'', ''Tue'']
   \<and> map day_key [''Mon'', ''Wed'', ''Fri'', ''Sun'', ''Tue''] = [0, 2, 4, 6, 1]
   \<and> result_sorted (generate_week_plan no_service ''Running'' ''Novice'' 5 0 []) = Inr False
   \<and> result_sorted (generate_week_plan no_service ''Boxing'' ''Novice'' 5 0 []) = Inr True"
proof -
  have p1: "result_days (generate_week_plan no_service ''Running'' ''Novice'' 5 0 [])
     = Inr [''Mon'', ''Wed'', ''Fri'', ''Sun'', ''Tue'']"
    by code_simp
  have p2: "map day_key [''Mon'', ''Wed'', ''Fri'', ''Sun'', ''Tue''] = [0, 2, 4, 6, 1]"
    by (simp add: day_key_values)
  have p3: "result_sorted (generate_week_plan no_service ''Running'' ''Novice'' 5 0 [])
     = Inr False"
    by code_simp
  have p4: "result_sorted (generate_week_plan no_service ''Boxing'' ''Novice'' 5 0 [])
     = Inr True"
    by code_simp
  from p1 p2 p3 p4 show ?thesis by (intro conjI)
qed


section \<open>The AI path: fallback, distinct days, sanitized fields\<close>

lemma sanitize_item_used:
  assumes "sanitize_item parse sport c item used = Inr (s, used')"
  shows "used' = insert (day s) used"
proof -
  from sanitize_item_Inr [OF assms] obtain x where
    r: "resolve_day (default_day x) used = Inr (day s, used')" by blast
  then obtain b where b: "index_of (default_day x) DAYS_ORDER = Some b"
    by (auto simp: resolve_day_def split: option.splits)
  show ?thesis
  proof (cases "find (\<lambda>d. d \<notin> used) (candidate_days b)")
    case None
    then have "set (candidate_days b) \<subseteq> used" by (auto simp: find_None_iff)
    then have "default_day x \<in> used"
      using default_day_in_week [of x] by (auto simp: set_candidate_days)
    with r b None show ?thesis by (auto simp: resolve_day_def)
  next
    case (Some d)
    with r b show ?thesis by (auto simp: resolve_day_def)
  qed
qed

text \<open>
  The loop over the items of the reply: the sessions it adds come one from each item, in
  order, and the set of used days that an item meets is the set of days of the sessions
  built before it.
\<close>

lemma sanitize_items_trace:
  assumes "sanitize_items parse sport c n items acc used = Inr out"
    and "used = set (map day acc)"
  shows "\<exists>new. out = acc @ new \<and> length new \<le> length items
     \<and> (\<forall>i<length new. \<exists>u'.
           sanitize_item parse sport c (items ! i) (set (map day (acc @ take i new)))
             = Inr (new ! i, u'))"
  using assms
proof (induction items arbitrary: acc used)
  case Nil
  then show ?case by simp
next
  case (Cons item items)
  show ?case
  proof (cases "n \<le> int (length acc)")
    case True
    with Cons.prems show ?thesis by simp
  next
    case False
    with Cons.prems(1) obtain s used' where
      item: "sanitize_item parse sport c item used = Inr (s, used')"
      and rest: "sanitize_items parse sport c n items (acc @ [s]) used' = Inr out"
      by (auto simp: and_then_eq_Inr)
    have u': "used' = set (map day (acc @ [s]))"
      using sanitize_item_used [OF item] Cons.prems(2) by simp
    from Cons.IH [OF rest u'] obtain new where
      out: "out = (acc @ [s]) @ new" and len: "length new \<le> length items"
      and each: "\<forall>i<length new. \<exists>u'.
           sanitize_item parse sport c (items ! i) (set (map day ((acc @ [s]) @ take i new)))
             = Inr (new ! i, u')"
      by blast
    have all: "\<forall>i<length (s # new). \<exists>u'.
           sanitize_item parse sport c ((item # items) ! i)
             (set (map day (acc @ take i (s # new)))) = Inr ((s # new) ! i, u')"
    proof (intro allI impI)
      fix i assume i: "i < length (s # new)"
      show "\<exists>u'. sanitize_item parse sport c ((item # items) ! i)
             (set (map day (acc @ take i (s # new)))) = Inr ((s # new) ! i, u')"
      proof (cases i)
        case 0
        with item Cons.prems(2) show ?thesis by auto
      next
        case (Suc k)
        with i have "k < length new" by simp
        with each obtain u' where
          "sanitize_item parse sport c (items ! k) (set (map day ((acc @ [s]) @ take k new)))
             = Inr (new ! k, u')" by blast
        with Suc show ?thesis by auto
      qed
    qed
    have o: "out = acc @ (s # new)" using out by simp
    have l: "length (s # new) \<le> length (item # items)" using len by simp
    from o l all show ?thesis by blast
  qed
qed

lemma ai_pipeline_reply:
  assumes "ai_pipeline ext sport level n lw c = Inr (Some p)"
  shows "\<exists>data sessions_data items sessions.
      decoded_reply ext = Inr data
      \<and> dict_get data ''sessions'' (PList []) = Inr sessions_data
      \<and> py_iter sessions_data = Inr items
      \<and> sanitize_items (int_of_text ext) sport c n items [] {} = Inr sessions
      \<and> sessions \<noteq> [] \<and> p = (sessions, sort_by_day sessions [0..<length sessions])"
  using assms
  by (auto simp: ai_pipeline_def and_then_eq_Inr split: if_splits)

lemma ai_pipeline_service_error:
  assumes "decoded_reply ext = Inl e"
  shows "\<exists>e'. ai_pipeline ext sport level n lw c = Inl e'"
  using assms
  by (cases "total_minutes_target level n lw") (simp_all add: ai_pipeline_def)

lemma map_day_sort_key:
  "map day (sort_key (\<lambda>s. day_key (day s)) xs) = sort_key day_key (map day xs)"
  by (rule map_sort_key)

lemma sanitize_item_fields:
  assumes "sanitize_item parse sport c item used = Inr (s, used')"
  shows "\<exists>kvs raw coerced.
      item = PDict kvs
      \<and> py_int parse (case map_of kvs ''duration_min'' of Some w \<Rightarrow> w | None \<Rightarrow> PInt 30)
            = Inr coerced
      \<and> duration_min s = max 20 (min 60 coerced)
      \<and> (case map_of kvs ''intensity'' of Some w \<Rightarrow> w | None \<Rightarrow> PStr ''Moderate'') = PStr raw
      \<and> intensity s = (if str_title raw \<in> {''Easy'', ''Moderate'', ''Hard''}
                       then str_title raw else ''Moderate'')
      \<and> load_units s = (if intensity s = ''Easy'' then 1
                        else if intensity s = ''Moderate'' then 2 else 3) * duration_min s"
proof -
  from sanitize_item_Inr [OF assms] obtain kvs titled coerced where
    it: "item = PDict kvs"
    and ti: "py_title (case map_of kvs ''intensity'' of Some w \<Rightarrow> w | None \<Rightarrow> PStr ''Moderate'')
            = Inr titled"
    and i: "intensity s = normalize_intensity titled"
    and co: "py_int parse (case map_of kvs ''duration_min'' of Some w \<Rightarrow> w | None \<Rightarrow> PInt 30)
            = Inr coerced"
    and d: "duration_min s = clamp_duration coerced"
    and l: "load_units s = intensity_factor (intensity s) * duration_min s"
    by blast
  from ti obtain raw where
    raw: "(case map_of kvs ''intensity'' of Some w \<Rightarrow> w | None \<Rightarrow> PStr ''Moderate'') = PStr raw"
    and t: "titled = str_title raw"
    by (cases "case map_of kvs ''intensity'' of Some w \<Rightarrow> w | None \<Rightarrow> PStr ''Moderate''")
       (simp_all add: py_title_def)
  have i': "intensity s = (if str_title raw \<in> {''Easy'', ''Moderate'', ''Hard''}
                       then str_title raw else ''Moderate'')"
    using i t by (simp add: normalize_intensity_def)
  have d': "duration_min s = max 20 (min 60 coerced)"
    using d by (simp add: clamp_duration_def)
  have "intensity_factor (intensity s)
      = (if intensity s = ''Easy'' then 1 else if intensity s = ''Moderate'' then 2 else 3)"
    using i' by (simp add: intensity_factor_def split: if_splits)
  with l have l': "load_units s = (if intensity s = ''Easy'' then 1
                        else if intensity s = ''Moderate'' then 2 else 3) * duration_min s"
    by simp
  from it co d' raw i' l' show ?thesis by blast
qed

lemma sanitize_item_bounds:
  assumes "sanitize_item parse sport c item used = Inr (s, used')"
  shows "20 \<le> duration_min s \<and> duration_min s \<le> 60
       \<and> intensity s \<in> {''Easy'', ''Moderate'', ''Hard''}
       \<and> load_units s = (if intensity s = ''Easy'' then 1
                        else if intensity s = ''Moderate'' then 2 else 3) * duration_min s"
proof -
  from sanitize_item_fields [OF assms] obtain raw coerced where
    d: "duration_min s = max 20 (min 60 coerced)"
    and i: "intensity s = (if str_title raw \<in> {''Easy'', ''Moderate'', ''Hard''}
                       then str_title raw else ''Moderate'')"
    and l: "load_units s = (if intensity s = ''Easy'' then 1
                        else if intensity s = ''Moderate'' then 2 else 3) * duration_min s"
    by blast
  from d have d1: "20 \<le> duration_min s" and d2: "duration_min s \<le> 60" by simp_all
  from i have i': "intensity s \<in> {''Easy'', ''Moderate'', ''Hard''}"
    by (simp split: if_splits)
  from d1 d2 i' l show ?thesis by (intro conjI)
qed

text \<open>
  Claim C2. The AI plan requester returns for every input: it never raises. Its result is
  the failure signal \<open>None\<close> when no client for the text service is configured, when the
  request or the decoding of the reply fails, and when any step of its pipeline raises.
  On that signal the orchestrator returns the guardrail applied to the template plan: the
  boxing selector when the lowercased sport is \<open>boxing\<close>, the generic generator
  otherwise; nothing of the AI path is in the result.
\<close>

theorem ai_failure_falls_back:
  "(\<exists>r. generate_sessions_ai ext sport level n lw c = Inr r)
   \<and> (\<not> openai_available ext \<longrightarrow>
        generate_sessions_ai ext sport level n lw c = Inr None)
   \<and> ((\<exists>e. decoded_reply ext = Inl e) \<longrightarrow>
        generate_sessions_ai ext sport level n lw c = Inr None)
   \<and> ((\<exists>e. ai_pipeline ext sport level n lw c = Inl e) \<longrightarrow>
        generate_sessions_ai ext sport level n lw c = Inr None)
   \<and> (generate_sessions_ai ext sport level n lw c = Inr None \<longrightarrow>
        generate_week_plan ext sport level n lw c
          = apply_weekly_load_guardrail
              (if str_lower sport = ''boxing''
               then generate_boxing_sessions_template level n c
               else generate_generic_sessions_template sport level n c) lw)"
proof -
  have p1: "\<exists>r. generate_sessions_ai ext sport level n lw c = Inr r"
    by (cases "ai_pipeline ext sport level n lw c")
       (simp_all add: generate_sessions_ai_def try_except_def)
  have p2: "\<not> openai_available ext \<longrightarrow>
        generate_sessions_ai ext sport level n lw c = Inr None"
    by (simp add: generate_sessions_ai_def)
  have p4: "(\<exists>e. ai_pipeline ext sport level n lw c = Inl e) \<longrightarrow>
        generate_sessions_ai ext sport level n lw c = Inr None"
    by (auto simp: generate_sessions_ai_def try_except_def)
  have p3: "(\<exists>e. decoded_reply ext = Inl e) \<longrightarrow>
        generate_sessions_ai ext sport level n lw c = Inr None"
    using p4 ai_pipeline_service_error [of ext _ sport level n lw c] by blast
  have p5: "generate_sessions_ai ext sport level n lw c = Inr None \<longrightarrow>
        generate_week_plan ext sport level n lw c
          = apply_weekly_load_guardrail
              (if str_lower sport = ''boxing''
               then generate_boxing_sessions_template level n c
               else generate_generic_sessions_template sport level n c) lw"
    by (simp add: generate_week_plan_def template_sessions_def)
  from p1 p2 p3 p4 p5 show ?thesis by (intro conjI)
qed

theorem ai_failure_falls_back_witness:
  "generate_sessions_ai no_service ''Boxing'' ''Novice'' 3 0 [] = Inr None
   \<and> generate_sessions_ai failing_service ''Boxing'' ''Novice'' 3 0 [] = Inr None
   \<and> ai_pipeline (replying_service (PList [])) ''Boxing'' ''Novice'' 3 0 [] = Inl AttributeError
   \<and> generate_sessions_ai (replying_service (PList [])) ''Boxing'' ''Novice'' 3 0 [] = Inr None
   \<and> generate_week_plan failing_service ''Boxing'' ''Novice'' 3 0 []
       = apply_weekly_load_guardrail (generate_boxing_sessions_template ''Novice'' 3 []) 0
   \<and> generate_week_plan no_service ''Running'' ''Novice'' 3 0 []
       = apply_weekly_load_guardrail
           (generate_generic_sessions_template ''Running'' ''Novice'' 3 []) 0
   \<and> result_loads (generate_week_plan failing_service ''Boxing'' ''Novice'' 3 0 [])
       = Inr [30, 35, 40]"
proof -
  have off: "\<not> openai_available no_service" by (simp add: no_service_def)
  have err: "decoded_reply failing_service = Inl ServiceError"
    by (simp add: failing_service_def)
  have bad: "ai_pipeline (replying_service (PList [])) ''Boxing'' ''Novice'' 3 0 []
      = Inl AttributeError"
    by code_simp
  have box: "str_lower ''Boxing'' = ''boxing''" by code_simp
  have run: "str_lower ''Running'' \<noteq> ''boxing''" by code_simp
  have p1: "generate_sessions_ai no_service ''Boxing'' ''Novice'' 3 0 [] = Inr None"
    using ai_failure_falls_back [of no_service "''Boxing''" "''Novice''" 3 0 "[]"] off
    by blast
  have p1': "generate_sessions_ai no_service ''Running'' ''Novice'' 3 0 [] = Inr None"
    using ai_failure_falls_back [of no_service "''Running''" "''Novice''" 3 0 "[]"] off
    by blast
  have p2: "generate_sessions_ai failing_service ''Boxing'' ''Novice'' 3 0 [] = Inr None"
    using ai_failure_falls_back [of failing_service "''Boxing''" "''Novice''" 3 0 "[]"] err
    by blast
  have p4: "generate_sessions_ai (replying_service (PList [])) ''Boxing'' ''Novice'' 3 0 []
      = Inr None"
    using ai_failure_falls_back
      [of "replying_service (PList [])" "''Boxing''" "''Novice''" 3 0 "[]"] bad
    by blast
  have "generate_week_plan failing_service ''Boxing'' ''Novice'' 3 0 []
       = apply_weekly_load_guardrail
              (if str_lower ''Boxing'' = ''boxing''
               then generate_boxing_sessions_template ''Novice'' 3 []
               else generate_generic_sessions_template ''Boxing'' ''Novice'' 3 []) 0"
    using ai_failure_falls_back [of failing_service "''Boxing''" "''Novice''" 3 0 "[]"] p2
    by blast
  then have p5: "generate_week_plan failing_service ''Boxing'' ''Novice'' 3 0 []
       = apply_weekly_load_guardrail (generate_boxing_sessions_template ''Novice'' 3 []) 0"
    by (simp add: box)
  have "generate_week_plan no_service ''Running'' ''Novice'' 3 0 []
       = apply_weekly_load_guardrail
              (if str_lower ''Running'' = ''boxing''
               then generate_boxing_sessions_template ''Novice'' 3 []
               else generate_generic_sessions_template ''Running'' ''Novice'' 3 []) 0"
    using ai_failure_falls_back [of no_service "''Running''" "''Novice''" 3 0 "[]"] p1'
    by blast
  then have p6: "generate_week_plan no_service ''Running'' ''Novice'' 3 0 []
       = apply_weekly_load_guardrail
           (generate_generic_sessions_template ''Running'' ''Novice'' 3 []) 0"
    by (simp add: run)
  have "result_loads
          (apply_weekly_load_guardrail (generate_boxing_sessions_template ''Novice'' 3 []) 0)
       = Inr [30, 35, 40]"
    by code_simp
  then have p7: "result_loads (generate_week_plan failing_service ''Boxing'' ''Novice'' 3 0 [])
       = Inr [30, 35, 40]"
    by (simp only: p5)
  from p1 p2 bad p4 p5 p6 p7 show ?thesis by (intro conjI)
qed

text \<open>
  Claim C3. When the AI path returns a plan for a requested count of at most 7, the days
  of its sessions are pairwise distinct. The sessions are built one from each item of the
  reply, in order, and sorted by day at the end. The day of an item is its \<open>day\<close> value
  when that is one of the seven days, and Mon otherwise; the session gets the first day,
  from that day forward around the week, that no earlier session of the reply has got.
\<close>

theorem ai_days_distinct:
  assumes "generate_sessions_ai ext sport level n lw c = Inr (Some p)" and "n \<le> 7"
  shows "distinct (map day (sessions_of p))
     \<and> (\<exists>data sessions_data items sessions.
          decoded_reply ext = Inr data
        \<and> dict_get data ''sessions'' (PList []) = Inr sessions_data
        \<and> py_iter sessions_data = Inr items
        \<and> length sessions \<le> length items
        \<and> sessions_of p = sort_key (\<lambda>s. day_key (day s)) sessions
        \<and> distinct (map day sessions)
        \<and> (\<forall>i<length sessions. \<exists>kvs b k.
              items ! i = PDict kvs
            \<and> index_of
                (default_day (case map_of kvs ''day'' of Some w \<Rightarrow> w | None \<Rightarrow> PStr ''Mon''))
                DAYS_ORDER = Some b
            \<and> k < 7
            \<and> day (sessions ! i) = DAYS_ORDER ! ((b + k) mod 7)
            \<and> day (sessions ! i) \<notin> set (map day (take i sessions))
            \<and> (\<forall>j<k. DAYS_ORDER ! ((b + j) mod 7) \<in> set (map day (take i sessions)))))"
proof -
  from ai_pipeline_reply [OF generate_sessions_ai_Some [OF assms(1)]]
  obtain data sessions_data items sessions where
    reply: "decoded_reply ext = Inr data"
    and get: "dict_get data ''sessions'' (PList []) = Inr sessions_data"
    and iter: "py_iter sessions_data = Inr items"
    and run: "sanitize_items (int_of_text ext) sport c n items [] {} = Inr sessions"
    and p: "p = (sessions, sort_by_day sessions [0..<length sessions])"
    by blast
  have sorted: "sessions_of p = sort_key (\<lambda>s. day_key (day s)) sessions"
    by (simp only: p sessions_of_sorted)
  have dist: "distinct (map day sessions)"
    using sanitize_items_distinct [OF run assms(2)] by simp
  have "map day (sessions_of p) = sort_key day_key (map day sessions)"
    by (simp only: sorted map_day_sort_key)
  with dist have d1: "distinct (map day (sessions_of p))" by simp
  from sanitize_items_trace [OF run] obtain new where
    new: "sessions = [] @ new" and len0: "length new \<le> length items"
    and each0: "\<forall>i<length new. \<exists>u'.
           sanitize_item (int_of_text ext) sport c (items ! i)
             (set (map day ([] @ take i new))) = Inr (new ! i, u')"
    by auto
  from new have eq: "new = sessions" by simp
  from len0 eq have len: "length sessions \<le> length items" by simp
  from each0 eq have each: "\<forall>i<length sessions. \<exists>u'.
           sanitize_item (int_of_text ext) sport c (items ! i)
             (set (map day (take i sessions))) = Inr (sessions ! i, u')"
    by simp
  have "int (length sessions) \<le> max n 0"
    using sanitize_items_length [OF run] by simp
  with assms(2) have le7: "length sessions \<le> 7" by simp
  have items: "\<forall>i<length sessions. \<exists>kvs b k.
              items ! i = PDict kvs
            \<and> index_of
                (default_day (case map_of kvs ''day'' of Some w \<Rightarrow> w | None \<Rightarrow> PStr ''Mon''))
                DAYS_ORDER = Some b
            \<and> k < 7
            \<and> day (sessions ! i) = DAYS_ORDER ! ((b + k) mod 7)
            \<and> day (sessions ! i) \<notin> set (map day (take i sessions))
            \<and> (\<forall>j<k. DAYS_ORDER ! ((b + j) mod 7) \<in> set (map day (take i sessions)))"
  proof (intro allI impI)
    fix i assume i: "i < length sessions"
    let ?U = "set (map day (take i sessions))"
    from each i obtain u' where
      it: "sanitize_item (int_of_text ext) sport c (items ! i) ?U = Inr (sessions ! i, u')"
      by blast
    from sanitize_item_Inr [OF it] obtain kvs where
      kvs: "items ! i = PDict kvs"
      and r: "resolve_day
                (default_day (case map_of kvs ''day'' of Some w \<Rightarrow> w | None \<Rightarrow> PStr ''Mon''))
                ?U = Inr (day (sessions ! i), u')"
      by blast
    have "card ?U \<le> length (map day (take i sessions))" by (rule card_length)
    also have "\<dots> = i" using i by simp
    also have "\<dots> < 7" using i le7 by simp
    finally have small: "card ?U < card (set DAYS_ORDER)" by (simp only: card_DAYS_ORDER)
    have free: "\<not> set DAYS_ORDER \<subseteq> ?U"
    proof
      assume "set DAYS_ORDER \<subseteq> ?U"
      then have "card (set DAYS_ORDER) \<le> card ?U" by (intro card_mono) simp_all
      with small show False by simp
    qed
    from resolve_day_first_free [OF r free] obtain b k where
      "index_of
         (default_day (case map_of kvs ''day'' of Some w \<Rightarrow> w | None \<Rightarrow> PStr ''Mon''))
         DAYS_ORDER = Some b"
      "k < 7" "day (sessions ! i) = DAYS_ORDER ! ((b + k) mod 7)"
      "day (sessions ! i) \<notin> ?U" "\<forall>j<k. DAYS_ORDER ! ((b + j) mod 7) \<in> ?U"
      by blast
    with kvs show "\<exists>kvs b k.
              items ! i = PDict kvs
            \<and> index_of
                (default_day (case map_of kvs ''day'' of Some w \<Rightarrow> w | None \<Rightarrow> PStr ''Mon''))
                DAYS_ORDER = Some b
            \<and> k < 7
            \<and> day (sessions ! i) = DAYS_ORDER ! ((b + k) mod 7)
            \<and> day (sessions ! i) \<notin> set (map day (take i sessions))
            \<and> (\<forall>j<k. DAYS_ORDER ! ((b + j) mod 7) \<in> set (map day (take i sessions)))"
      by blast
  qed
  from reply get iter len sorted dist items
  have d2: "\<exists>data sessions_data items sessions.
          decoded_reply ext = Inr data
        \<and> dict_get data ''sessions'' (PList []) = Inr sessions_data
        \<and> py_iter sessions_data = Inr items
        \<and> length sessions \<le> length items
        \<and> sessions_of p = sort_key (\<lambda>s. day_key (day s)) sessions
        \<and> distinct (map day sessions)
        \<and> (\<forall>i<length sessions. \<exists>kvs b k.
              items ! i = PDict kvs
            \<and> index_of
                (default_day (case map_of kvs ''day'' of Some w \<Rightarrow> w | None \<Rightarrow> PStr ''Mon''))
                DAYS_ORDER = Some b
            \<and> k < 7
            \<and> day (sessions ! i) = DAYS_ORDER ! ((b + k) mod 7)
            \<and> day (sessions ! i) \<notin> set (map day (take i sessions))
            \<and> (\<forall>j<k. DAYS_ORDER ! ((b + j) mod 7) \<in> set (map day (take i sessions))))"
    by (intro exI conjI)
  from d1 d2 show ?thesis by (intro conjI)
qed

lemma result_ai_days_Some:
  "result_ai_days r = Inr (Some xs) \<Longrightarrow> \<exists>p. r = Inr (Some p) \<and> map day (sessions_of p) = xs"
  by (cases r) (auto simp: result_ai_days_def)

theorem ai_days_distinct_witness:
  "(5::int) \<le> 7
   \<and> result_ai_days
       (generate_sessions_ai
          (replying_service
             (reply_with_days [PStr ''Sat'', PStr ''Sun'', PStr ''Sat'', PStr ''Funday'', PInt 3]))
          ''Running'' ''Novice'' 5 0 [])
     = Inr (Some [''Mon'', ''Tue'', ''Wed'', ''Sat'', ''Sun''])
   \<and> distinct [''Mon'', ''Tue'', ''Wed'', ''Sat'', ''Sun'']"
proof -
  let ?r = "generate_sessions_ai
          (replying_service
             (reply_with_days [PStr ''Sat'', PStr ''Sun'', PStr ''Sat'', PStr ''Funday'', PInt 3]))
          ''Running'' ''Novice'' 5 0 []"
  have n: "(5::int) \<le> 7" by simp
  have days: "result_ai_days ?r = Inr (Some [''Mon'', ''Tue'', ''Wed'', ''Sat'', ''Sun''])"
    by code_simp
  from result_ai_days_Some [OF days] obtain p where
    run: "?r = Inr (Some p)"
    and d: "map day (sessions_of p) = [''Mon'', ''Tue'', ''Wed'', ''Sat'', ''Sun'']"
    by (elim exE conjE)
  have "distinct (map day (sessions_of p))"
    by (rule ai_days_distinct [OF run n, THEN conjunct1])
  then have dist: "distinct [''Mon'', ''Tue'', ''Wed'', ''Sat'', ''Sun'']"
    by (simp only: d)
  from n days dist show ?thesis by (intro conjI)
qed

text \<open>
  Claim C4. Every session of a plan returned by the AI path has a duration from 20 to 60,
  an intensity among Easy, Moderate and Hard, and a load that is the factor of its
  intensity (Easy 1, Moderate 2, Hard 3) times its duration. The sessions are built one
  from each item of the reply, in order: the duration is the item's \<open>duration_min\<close> value
  (30 when absent) converted by \<^verbatim>\<open>int()\<close> and clamped to 20 and 60, the intensity is the
  title-cased \<open>intensity\<close> value (Moderate when absent) when that is one of the three
  labels and Moderate otherwise, and the load is computed from these two.
\<close>

theorem sanitized_fields:
  assumes "generate_sessions_ai ext sport level n lw c = Inr (Some p)"
  shows "(\<forall>s\<in>set (sessions_of p).
            20 \<le> duration_min s \<and> duration_min s \<le> 60
          \<and> intensity s \<in> {''Easy'', ''Moderate'', ''Hard''}
          \<and> load_units s = (if intensity s = ''Easy'' then 1
                            else if intensity s = ''Moderate'' then 2 else 3) * duration_min s)
     \<and> (\<exists>data sessions_data items sessions.
          decoded_reply ext = Inr data
        \<and> dict_get data ''sessions'' (PList []) = Inr sessions_data
        \<and> py_iter sessions_data = Inr items
        \<and> length sessions \<le> length items
        \<and> sessions_of p = sort_key (\<lambda>s. day_key (day s)) sessions
        \<and> (\<forall>i<length sessions. \<exists>kvs raw coerced.
              items ! i = PDict kvs
            \<and> py_int (int_of_text ext)
                (case map_of kvs ''duration_min'' of Some w \<Rightarrow> w | None \<Rightarrow> PInt 30)
                = Inr coerced
            \<and> duration_min (sessions ! i) = max 20 (min 60 coerced)
            \<and> (case map_of kvs ''intensity'' of Some w \<Rightarrow> w | None \<Rightarrow> PStr ''Moderate'')
                = PStr raw
            \<and> intensity (sessions ! i)
                = (if str_title raw \<in> {''Easy'', ''Moderate'', ''Hard''}
                   then str_title raw else ''Moderate'')
            \<and> load_units (sessions ! i)
                = (if intensity (sessions ! i) = ''Easy'' then 1
                   else if intensity (sessions ! i) = ''Moderate'' then 2 else 3)
                  * duration_min (sessions ! i)))"
proof -
  from ai_pipeline_reply [OF generate_sessions_ai_Some [OF assms(1)]]
  obtain data sessions_data items sessions where
    reply: "decoded_reply ext = Inr data"
    and get: "dict_get data ''sessions'' (PList []) = Inr sessions_data"
    and iter: "py_iter sessions_data = Inr items"
    and run: "sanitize_items (int_of_text ext) sport c n items [] {} = Inr sessions"
    and p: "p = (sessions, sort_by_day sessions [0..<length sessions])"
    by blast
  have sorted: "sessions_of p = sort_key (\<lambda>s. day_key (day s)) sessions"
    by (simp only: p sessions_of_sorted)
  from sanitize_items_trace [OF run] obtain new where
    new: "sessions = [] @ new" and len0: "length new \<le> length items"
    and each0: "\<forall>i<length new. \<exists>u'.
           sanitize_item (int_of_text ext) sport c (items ! i)
             (set (map day ([] @ take i new))) = Inr (new ! i, u')"
    by auto
  from new have eq: "new = sessions" by simp
  from len0 eq have len: "length sessions \<le> length items" by simp
  from each0 eq have each: "\<forall>i<length sessions. \<exists>u u'.
           sanitize_item (int_of_text ext) sport c (items ! i) u = Inr (sessions ! i, u')"
    by blast
  have items: "\<forall>i<length sessions. \<exists>kvs raw coerced.
              items ! i = PDict kvs
            \<and> py_int (int_of_text ext)
                (case map_of kvs ''duration_min'' of Some w \<Rightarrow> w | None \<Rightarrow> PInt 30)
                = Inr coerced
            \<and> duration_min (sessions ! i) = max 20 (min 60 coerced)
            \<and> (case map_of kvs ''intensity'' of Some w \<Rightarrow> w | None \<Rightarrow> PStr ''Moderate'')
                = PStr raw
            \<and> intensity (sessions ! i)
                = (if str_title raw \<in> {''Easy'', ''Moderate'', ''Hard''}
                   then str_title raw else ''Moderate'')
            \<and> load_units (sessions ! i)
                = (if intensity (sessions ! i) = ''Easy'' then 1
                   else if intensity (sessions ! i) = ''Moderate'' then 2 else 3)
                  * duration_min (sessions ! i)"
  proof (intro allI impI)
    fix i assume "i < length sessions"
    with each obtain u u' where
      "sanitize_item (int_of_text ext) sport c (items ! i) u = Inr (sessions ! i, u')"
      by blast
    then show "\<exists>kvs raw coerced.
              items ! i = PDict kvs
            \<and> py_int (int_of_text ext)
                (case map_of kvs ''duration_min'' of Some w \<Rightarrow> w | None \<Rightarrow> PInt 30)
                = Inr coerced
            \<and> duration_min (sessions ! i) = max 20 (min 60 coerced)
            \<and> (case map_of kvs ''intensity'' of Some w \<Rightarrow> w | None \<Rightarrow> PStr ''Moderate'')
                = PStr raw
            \<and> intensity (sessions ! i)
                = (if str_title raw \<in> {''Easy'', ''Moderate'', ''Hard''}
                   then str_title raw else ''Moderate'')
            \<and> load_units (sessions ! i)
                = (if intensity (sessions ! i) = ''Easy'' then 1
                   else if intensity (sessions ! i) = ''Moderate'' then 2 else 3)
                  * duration_min (sessions ! i)"
      by (rule sanitize_item_fields)
  qed
  have bounds: "\<forall>s\<in>set (sessions_of p).
            20 \<le> duration_min s \<and> duration_min s \<le> 60
          \<and> intensity s \<in> {''Easy'', ''Moderate'', ''Hard''}
          \<and> load_units s = (if intensity s = ''Easy'' then 1
                            else if intensity s = ''Moderate'' then 2 else 3) * duration_min s"
  proof
    fix s assume "s \<in> set (sessions_of p)"
    then have "s \<in> set sessions" by (simp add: sorted)
    then obtain i where i: "i < length sessions" and s: "s = sessions ! i"
      by (auto simp: in_set_conv_nth)
    from each i obtain u u' where
      "sanitize_item (int_of_text ext) sport c (items ! i) u = Inr (sessions ! i, u')"
      by blast
    from sanitize_item_bounds [OF this] s
    show "20 \<le> duration_min s \<and> duration_min s \<le> 60
          \<and> intensity s \<in> {''Easy'', ''Moderate'', ''Hard''}
          \<and> load_units s = (if intensity s = ''Easy'' then 1
                            else if intensity s = ''Moderate'' then 2 else 3) * duration_min s"
      by simp
  qed
  from reply get iter len sorted items
  have ex: "\<exists>data sessions_data items sessions.
          decoded_reply ext = Inr data
        \<and> dict_get data ''sessions'' (PList []) = Inr sessions_data
        \<and> py_iter sessions_data = Inr items
        \<and> length sessions \<le> length items
        \<and> sessions_of p = sort_key (\<lambda>s. day_key (day s)) sessions
        \<and> (\<forall>i<length sessions. \<exists>kvs raw coerced.
              items ! i = PDict kvs
            \<and> py_int (int_of_text ext)
                (case map_of kvs ''duration_min'' of Some w \<Rightarrow> w | None \<Rightarrow> PInt 30)
                = Inr coerced
            \<and> duration_min (sessions ! i) = max 20 (min 60 coerced)
            \<and> (case map_of kvs ''intensity'' of Some w \<Rightarrow> w | None \<Rightarrow> PStr ''Moderate'')
                = PStr raw
            \<and> intensity (sessions ! i)
                = (if str_title raw \<in> {''Easy'', ''Moderate'', ''Hard''}
                   then str_title raw else ''Moderate'')
            \<and> load_units (sessions ! i)
                = (if intensity (sessions ! i) = ''Easy'' then 1
                   else if intensity (sessions ! i) = ''Moderate'' then 2 else 3)
                  * duration_min (sessions ! i))"
    by (intro exI conjI)
  from bounds ex show ?thesis by (intro conjI)
qed

lemma result_ai_fields_Some:
  "result_ai_fields r = Inr (Some xs) \<Longrightarrow>
     \<exists>p. r = Inr (Some p)
        \<and> map (\<lambda>s. (intensity s, duration_min s, load_units s)) (sessions_of p) = xs"
  by (cases r) (auto simp: result_ai_fields_def)

theorem sanitized_fields_witness:
  "result_ai_fields
       (generate_sessions_ai
          (replying_service
             (reply_with_fields
                [(PStr ''hard'', PInt 90), (PStr ''extreme'', PInt 5),
                 (PStr ''EASY'', PInt 45)]))
          ''Running'' ''Novice'' 3 0 [])
     = Inr (Some [(''Hard'', 60, 180), (''Moderate'', 20, 40), (''Easy'', 45, 45)])
   \<and> list_all (\<lambda>(i, d, l). 20 \<le> d \<and> d \<le> 60 \<and> i \<in> {''Easy'', ''Moderate'', ''Hard''}
                 \<and> l = (if i = ''Easy'' then 1 else if i = ''Moderate'' then 2 else 3) * d)
       [(''Hard'', 60, 180), (''Moderate'', 20, 40), (''Easy'', 45, 45 :: int)]"
proof -
  let ?r = "generate_sessions_ai
          (replying_service
             (reply_with_fields
                [(PStr ''hard'', PInt 90), (PStr ''extreme'', PInt 5),
                 (PStr ''EASY'', PInt 45)]))
          ''Running'' ''Novice'' 3 0 []"
  let ?f = "\<lambda>s. (intensity s, duration_min s, load_units s)"
  let ?Q = "\<lambda>(i :: string, d :: int, l :: int).
       20 \<le> d \<and> d \<le> 60 \<and> i \<in> {''Easy'', ''Moderate'', ''Hard''}
       \<and> l = (if i = ''Easy'' then 1 else if i = ''Moderate'' then 2 else 3) * d"
  have fields: "result_ai_fields ?r
      = Inr (Some [(''Hard'', 60, 180), (''Moderate'', 20, 40), (''Easy'', 45, 45)])"
    by code_simp
  from result_ai_fields_Some [OF fields] obtain p where
    run: "?r = Inr (Some p)"
    and m: "map ?f (sessions_of p)
          = [(''Hard'', 60, 180), (''Moderate'', 20, 40), (''Easy'', 45, 45)]"
    by (elim exE conjE)
  have "\<forall>s\<in>set (sessions_of p).
            20 \<le> duration_min s \<and> duration_min s \<le> 60
          \<and> intensity s \<in> {''Easy'', ''Moderate'', ''Hard''}
          \<and> load_units s = (if intensity s = ''Easy'' then 1
                            else if intensity s = ''Moderate'' then 2 else 3) * duration_min s"
    by (rule sanitized_fields [OF run, THEN conjunct1])
  then have "list_all ?Q (map ?f (sessions_of p))"
    by (simp add: list_all_iff)
  then have all: "list_all ?Q [(''Hard'', 60, 180), (''Moderate'', 20, 40), (''Easy'', 45, 45)]"
    by (simp only: m)
  from fields all show ?thesis by (intro conjI)
qed

end
